theory Spec2Isabelle
  imports Complex_Main "HOL-Library.Multiset"
begin

section \<open>fetchall: fetching URLs in parallel and reporting their times and sizes\<close>

text \<open>
  The program verified here is \<^verbatim>\<open>fetchall/main.go\<close>: \<^verbatim>\<open>main\<close> starts one goroutine
  \<^verbatim>\<open>fetch(url, ch)\<close> per command-line argument, receives one string per argument from the
  unbuffered channel \<^verbatim>\<open>ch\<close>, prints each as it arrives and ends with a summary line.

  What lies outside the program is made an input of the model: the answers of
  \<^verbatim>\<open>http.Get\<close> and \<^verbatim>\<open>io.Copy\<close> for each task, the durations that \<^verbatim>\<open>time.Since\<close>
  returns, and the order in which the scheduler runs the goroutines.

  \<open>fetch\<close> and \<open>main\<close> describe the program when every call of \<^verbatim>\<open>http.Get\<close> and
  \<^verbatim>\<open>io.Copy\<close> returns. Neither call has a timeout in the program, so a call may never
  return: \<open>main_in\<close> takes the calls that never return as one more input. \<open>main_clocked\<close>
  takes the clock readings at which the steps happen as an input, and the duration of line
  29 is then the difference of two readings.
\<close>

subsection \<open>The formatting verbs of package fmt that the program uses\<close>

text \<open>
  Numbers that can be large are integers throughout (\<^verbatim>\<open>int64\<close> in the program);
  \<open>show_dec\<close> writes the decimal digits of a non-negative one.
\<close>

definition digit_char :: "int \<Rightarrow> char" where
  "digit_char d = ''0123456789'' ! nat d"

function show_dec :: "int \<Rightarrow> string" where
  "show_dec n = (if n < 10 then [digit_char n] else show_dec (n div 10) @ [digit_char (n mod 10)])"
  by pat_completeness auto
termination
  by (relation "measure nat") auto

declare show_dec.simps [simp del]

text \<open>\<^verbatim>\<open>%d\<close> of an \<^verbatim>\<open>int64\<close>: a minus sign for a negative number, then the decimal digits.\<close>

definition fmt_d :: "int \<Rightarrow> string" where
  "fmt_d n = (if n < 0 then ''-'' @ show_dec (- n) else show_dec n)"

text \<open>A width without flags pads with spaces on the left and never truncates.\<close>

definition pad_left :: "nat \<Rightarrow> string \<Rightarrow> string" where
  "pad_left w s = replicate (w - length s) CHR '' '' @ s"

text \<open>
  A \<^verbatim>\<open>float64\<close> is represented by the rational number it denotes. \<open>f64\<close> rounds a
  rational to the nearest number with a 53-bit significand, ties to the even significand,
  which is what every IEEE-754 operation of the program does to its exact result
  (the exponent range is not modelled: the program's values stay far inside it).
\<close>

definition round_even :: "rat \<Rightarrow> int" where
  "round_even x =
     (let f = \<lfloor>x\<rfloor>; r = x - of_int f
      in if r < 1 / 2 then f else if 1 / 2 < r then f + 1 else if even f then f else f + 1)"

definition pow2 :: "int \<Rightarrow> rat" where
  "pow2 e = (if 0 \<le> e then 2 ^ nat e else 1 / 2 ^ nat (- e))"

text \<open>The number of binary digits of a positive integer.\<close>

function bits :: "int \<Rightarrow> int" where
  "bits n = (if n \<le> 0 then 0 else 1 + bits (n div 2))"
  by pat_completeness auto
termination
  by (relation "measure nat") auto

declare bits.simps [simp del]

text \<open>\<open>ilog2 x\<close> is the integer \<open>e\<close> with \<open>2^e \<le> x < 2^(e+1)\<close>, for a positive \<open>x\<close>.\<close>

definition ilog2 :: "rat \<Rightarrow> int" where
  "ilog2 x =
     (let (p, q) = quotient_of x; e = bits p - bits q
      in if pow2 e \<le> x then e else e - 1)"

definition f64 :: "rat \<Rightarrow> rat" where
  "f64 x =
     (if x = 0 then 0
      else let e = ilog2 \<bar>x\<bar> - 52
           in sgn x * of_int (round_even (\<bar>x\<bar> / pow2 e)) * pow2 e)"

text \<open>
  \<^verbatim>\<open>time.Duration\<close> is an \<^verbatim>\<open>int64\<close> count of nanoseconds. Go's \<^verbatim>\<open>/\<close> and \<^verbatim>\<open>%\<close>
  on integers truncate towards zero. \<^verbatim>\<open>Duration.Seconds\<close> is
  \<^verbatim>\<open>sec := d / Second; nsec := d % Second; return float64(sec) + float64(nsec)/1e9\<close>.
\<close>

type_synonym Duration = int

definition quo :: "int \<Rightarrow> int \<Rightarrow> int" where
  "quo a b = sgn a * sgn b * (\<bar>a\<bar> div \<bar>b\<bar>)"

definition rem :: "int \<Rightarrow> int \<Rightarrow> int" where
  "rem a b = sgn a * (\<bar>a\<bar> mod \<bar>b\<bar>)"

definition Second :: Duration where
  "Second = 1000000000"

definition Seconds :: "Duration \<Rightarrow> rat" where
  "Seconds d =
     (let sec = quo d Second; nsec = rem d Second
      in f64 (f64 (of_int sec) + f64 (f64 (of_int nsec) / 1000000000)))"

text \<open>
  \<^verbatim>\<open>%.2f\<close> of a \<^verbatim>\<open>float64\<close>: a minus sign for a negative value, then the exact magnitude
  rounded to hundredths (ties to even, as \<^verbatim>\<open>strconv\<close> rounds the exact decimal
  expansion), printed as the integer part, a point and two digits.
\<close>

definition fmt_2f :: "rat \<Rightarrow> string" where
  "fmt_2f x =
     (let h = round_even (\<bar>x\<bar> * 100)
      in (if x < 0 then ''-'' else []) @
         show_dec (h div 100) @ ''.'' @ [digit_char (h mod 100 div 10), digit_char (h mod 10)])"

text \<open>
  The operands of \<^verbatim>\<open>fmt.Sprint\<close> in the program are strings and \<^verbatim>\<open>error\<close> values. An error
  is represented by the text its \<^verbatim>\<open>Error()\<close> method returns, which is what the default
  format prints. \<^verbatim>\<open>Sprint\<close> interprets no verb; it writes the operands one after the other
  and puts a space between two operands when neither is a string.
\<close>

datatype operand = Str string | Err string

fun is_Str :: "operand \<Rightarrow> bool" where
  "is_Str (Str _) = True"
| "is_Str (Err _) = False"

fun text_of :: "operand \<Rightarrow> string" where
  "text_of (Str s) = s"
| "text_of (Err e) = e"

fun Sprint :: "operand list \<Rightarrow> string" where
  "Sprint [] = []"
| "Sprint [a] = text_of a"
| "Sprint (a # b # rest) =
     text_of a @ (if \<not> is_Str a \<and> \<not> is_Str b then '' '' else []) @ Sprint (b # rest)"

text \<open>\<^verbatim>\<open>fmt.Sprintf("%.2fs %7d %s", secs, nbytes, url)\<close>, line 52.\<close>

definition Sprintf_result :: "rat \<Rightarrow> int \<Rightarrow> string \<Rightarrow> string" where
  "Sprintf_result secs nbytes url = fmt_2f secs @ ''s '' @ pad_left 7 (fmt_d nbytes) @ '' '' @ url"

text \<open>\<^verbatim>\<open>fmt.Printf("%.2fs elapsed\n", secs)\<close>, line 29.\<close>

definition Sprintf_elapsed :: "rat \<Rightarrow> string" where
  "Sprintf_elapsed secs = fmt_2f secs @ ''s elapsed'' @ [CHR 0x0A]"

text \<open>\<^verbatim>\<open>fmt.Println(v)\<close> of one string writes it and a newline.\<close>

definition Println :: "string \<Rightarrow> string" where
  "Println v = v @ [CHR 0x0A]"

subsection \<open>The fetch task\<close>

text \<open>
  What the world answers to one task: the error of \<^verbatim>\<open>http.Get\<close> (\<open>None\<close> is \<^verbatim>\<open>nil\<close>), the
  byte count and the error of \<^verbatim>\<open>io.Copy\<close>, and the duration that \<^verbatim>\<open>time.Since(start)\<close>
  returns on line 51.
\<close>

record transport =
  get_err :: "string option"
  copy_n :: int
  copy_err :: "string option"
  since :: Duration

text \<open>The actions of a task, in the order in which it performs them.\<close>

datatype event = Now | HttpGet string | IoCopy | BodyClose | Since | Send string

definition fetch :: "string \<Rightarrow> transport \<Rightarrow> event list" where
  "fetch url w =
     [Now, HttpGet url] @
     (case get_err w of
        Some err \<Rightarrow> [Send (Sprint [Err err])]
      | None \<Rightarrow>
          [IoCopy, BodyClose] @
          (case copy_err w of
             Some err \<Rightarrow> [Send (Sprint [Str ''while reading %s: %v'', Str url, Err err])]
           | None \<Rightarrow> [Since, Send (Sprintf_result (Seconds (since w)) (copy_n w) url)]))"

text \<open>The values a sequence of actions sends on the channel.\<close>

fun sends :: "event list \<Rightarrow> string list" where
  "sends [] = []"
| "sends (Send m # es) = m # sends es"
| "sends (e # es) = sends es"

subsection \<open>The dispatcher and its goroutines\<close>

text \<open>
  A command-line argument together with what the world answers to the task that fetches it.
\<close>

type_synonym target = "string \<times> transport"

text \<open>
  A goroutine is either running, with the actions it has still to perform, or blocked in a
  send \<^verbatim>\<open>ch <- v\<close> on the unbuffered channel, with the value and the actions after the send.
\<close>

datatype goroutine = Running "event list" | Blocked string "event list"

fun remaining :: "goroutine \<Rightarrow> event list" where
  "remaining (Running es) = es"
| "remaining (Blocked v es) = es"

text \<open>
  One move of a goroutine on its own: it performs its next action. At a send it blocks
  (the channel has no buffer); it is released by the receive of \<^verbatim>\<open>main\<close>.
\<close>

fun task_move :: "goroutine \<Rightarrow> (event \<times> goroutine) option" where
  "task_move (Running []) = None"
| "task_move (Running (Send v # es)) = Some (Send v, Blocked v es)"
| "task_move (Running (e # es)) = Some (e, Running es)"
| "task_move (Blocked v es) = None"

text \<open>
  Where \<^verbatim>\<open>main\<close> stands: before line 16; at the head of the first loop with \<open>i\<close> goroutines
  started; at the head of the second loop with \<open>k\<close> values received and printed; on line 26
  holding the received value, before \<^verbatim>\<open>Println\<close>; before line 29; returned.
\<close>

datatype mpc = Line16 | Line20 nat | Line25 nat | Line26 nat string | Line29 | Returned

text \<open>What has happened so far, in order: the actions of \<^verbatim>\<open>main\<close> and those of task \<open>j\<close>.\<close>

datatype action =
    MainNow
  | Go nat
  | Recv nat string
  | Print string
  | MainSince
  | Summary string
  | Task nat event

text \<open>
  The state: the position of \<^verbatim>\<open>main\<close>, the goroutines in the order of their start, the
  queue of the goroutines blocked in a send (the Go runtime keeps the senders of a channel in
  arrival order and a receive takes the first), and the history.
\<close>

record state =
  pc :: mpc
  gs :: "goroutine list"
  sendq :: "nat list"
  trace :: "action list"

definition init :: state where
  "init = \<lparr>pc = Line16, gs = [], sendq = [], trace = []\<rparr>"

text \<open>
  One step of \<^verbatim>\<open>main\<close> (lines 14 to 30). \<open>elapsed\<close> is the duration that
  \<^verbatim>\<open>time.Since(start)\<close> returns on line 29. \<open>None\<close>: \<^verbatim>\<open>main\<close> cannot move (it waits in
  the receive, or it has returned).
\<close>

definition main_step :: "target list \<Rightarrow> Duration \<Rightarrow> state \<Rightarrow> state option" where
  "main_step args elapsed s =
     (case pc s of
        Line16 \<Rightarrow> Some (s\<lparr>pc := Line20 0, trace := trace s @ [MainNow]\<rparr>)
      | Line20 i \<Rightarrow>
          if i < length args
          then Some (s\<lparr>pc := Line20 (i + 1),
                       gs := gs s @ [Running (fetch (fst (args ! i)) (snd (args ! i)))],
                       trace := trace s @ [Go i]\<rparr>)
          else Some (s\<lparr>pc := Line25 0\<rparr>)
      | Line25 k \<Rightarrow>
          if k < length args
          then (case sendq s of
                  [] \<Rightarrow> None
                | j # q \<Rightarrow>
                    if j < length (gs s)
                    then (case gs s ! j of
                            Blocked v es \<Rightarrow>
                              Some (s\<lparr>pc := Line26 k v, gs := (gs s)[j := Running es],
                                      sendq := q, trace := trace s @ [Recv j v]\<rparr>)
                          | Running es \<Rightarrow> None)
                    else None)
          else Some (s\<lparr>pc := Line29\<rparr>)
      | Line26 k v \<Rightarrow> Some (s\<lparr>pc := Line25 (k + 1), trace := trace s @ [Print v]\<rparr>)
      | Line29 \<Rightarrow>
          Some (s\<lparr>pc := Returned,
                  trace := trace s @ [MainSince, Summary (Sprintf_elapsed (Seconds elapsed))]\<rparr>)
      | Returned \<Rightarrow> None)"

text \<open>
  One step of goroutine \<open>j\<close>. When \<^verbatim>\<open>main\<close> has returned the process is over and no
  goroutine moves.
\<close>

definition task_step :: "nat \<Rightarrow> state \<Rightarrow> state option" where
  "task_step j s =
     (if pc s = Returned \<or> length (gs s) \<le> j then None
      else case task_move (gs s ! j) of
             None \<Rightarrow> None
           | Some (e, g) \<Rightarrow>
               Some (s\<lparr>gs := (gs s)[j := g],
                       sendq := (case g of Blocked v es \<Rightarrow> sendq s @ [j] | Running es \<Rightarrow> sendq s),
                       trace := trace s @ [Task j e]\<rparr>))"

text \<open>The scheduler picks who moves next; a schedule is the list of its picks.\<close>

datatype actor = Main | G nat

fun step :: "target list \<Rightarrow> Duration \<Rightarrow> actor \<Rightarrow> state \<Rightarrow> state option" where
  "step args elapsed Main s = main_step args elapsed s"
| "step args elapsed (G j) s = task_step j s"

fun run :: "target list \<Rightarrow> Duration \<Rightarrow> actor list \<Rightarrow> state \<Rightarrow> state option" where
  "run args elapsed [] s = Some s"
| "run args elapsed (a # sched) s =
     (case step args elapsed a s of None \<Rightarrow> None | Some s' \<Rightarrow> run args elapsed sched s')"

text \<open>\<^verbatim>\<open>main\<close> under a schedule, from the start of the process.\<close>

definition main :: "target list \<Rightarrow> Duration \<Rightarrow> actor list \<Rightarrow> state option" where
  "main args elapsed sched = run args elapsed sched init"

subsection \<open>Reading the history\<close>

text \<open>The actions of task \<open>j\<close>.\<close>

fun task_events :: "nat \<Rightarrow> action list \<Rightarrow> event list" where
  "task_events j [] = []"
| "task_events j (Task i e # tr) = (if i = j then e # task_events j tr else task_events j tr)"
| "task_events j (a # tr) = task_events j tr"

text \<open>The tasks that reached their send, in the order in which they did.\<close>

fun arrivals :: "action list \<Rightarrow> nat list" where
  "arrivals [] = []"
| "arrivals (Task j (Send v) # tr) = j # arrivals tr"
| "arrivals (a # tr) = arrivals tr"

text \<open>The receives of \<^verbatim>\<open>main\<close>: the sending task and the value.\<close>

fun received :: "action list \<Rightarrow> (nat \<times> string) list" where
  "received [] = []"
| "received (Recv j v # tr) = (j, v) # received tr"
| "received (a # tr) = received tr"

text \<open>The values \<^verbatim>\<open>main\<close> received from task \<open>j\<close>.\<close>

definition received_from :: "nat \<Rightarrow> action list \<Rightarrow> string list" where
  "received_from j tr = map snd (filter (\<lambda>p. fst p = j) (received tr))"

text \<open>The values printed by line 26, and everything written to the standard output.\<close>

fun printed :: "action list \<Rightarrow> string list" where
  "printed [] = []"
| "printed (Print v # tr) = v # printed tr"
| "printed (a # tr) = printed tr"

fun stdout :: "action list \<Rightarrow> string list" where
  "stdout [] = []"
| "stdout (Print v # tr) = Println v # stdout tr"
| "stdout (Summary x # tr) = x # stdout tr"
| "stdout (a # tr) = stdout tr"

text \<open>The value a blocked goroutine is offering on the channel.\<close>

fun in_flight :: "goroutine \<Rightarrow> string list" where
  "in_flight (Running es) = []"
| "in_flight (Blocked v es) = [v]"

text \<open>The value \<^verbatim>\<open>main\<close> holds between the receive and the \<^verbatim>\<open>Println\<close> of line 26.\<close>

fun held :: "mpc \<Rightarrow> string list" where
  "held (Line26 k v) = [v]"
| "held p = []"

text \<open>No reading of the clock by \<^verbatim>\<open>main\<close> and no summary line among the actions.\<close>

definition clockless :: "action list \<Rightarrow> bool" where
  "clockless tr = (MainNow \<notin> set tr \<and> MainSince \<notin> set tr \<and> (\<forall>a \<in> set tr. \<forall>x. a \<noteq> Summary x))"

text \<open>
  What the position of \<^verbatim>\<open>main\<close> says, for \<open>n\<close> arguments: the number of goroutines started,
  the number of values received, and the range of the loop counters.
\<close>

fun started :: "nat \<Rightarrow> mpc \<Rightarrow> nat" where
  "started n Line16 = 0"
| "started n (Line20 i) = i"
| "started n p = n"

fun taken :: "nat \<Rightarrow> mpc \<Rightarrow> nat" where
  "taken n Line16 = 0"
| "taken n (Line20 i) = 0"
| "taken n (Line25 k) = k"
| "taken n (Line26 k v) = k + 1"
| "taken n p = n"

fun in_range :: "nat \<Rightarrow> mpc \<Rightarrow> bool" where
  "in_range n (Line20 i) = (i \<le> n)"
| "in_range n (Line25 k) = (k \<le> n)"
| "in_range n (Line26 k v) = (k < n)"
| "in_range n p = True"

text \<open>
  The number of steps that are left: those of \<^verbatim>\<open>main\<close>, those of the goroutines that
  run, and those of the tasks not yet started.
\<close>

fun main_left :: "nat \<Rightarrow> mpc \<Rightarrow> nat" where
  "main_left n Line16 = 3 * n + 4"
| "main_left n (Line20 i) = 3 * n + 3 - i"
| "main_left n (Line25 k) = 2 * (n - k) + 2"
| "main_left n (Line26 k v) = 2 * (n - k) + 1"
| "main_left n Line29 = 1"
| "main_left n Returned = 0"

definition steps_left :: "target list \<Rightarrow> state \<Rightarrow> nat" where
  "steps_left args s =
     main_left (length args) (pc s)
     + sum_list (map (\<lambda>g. length (remaining g)) (gs s))
     + sum_list (map (\<lambda>t. length (fetch (fst t) (snd t))) (drop (length (gs s)) args))"

subsection \<open>The error of \<^verbatim>\<open>http.Get\<close>\<close>






subsection \<open>Calls that never return\<close>

text \<open>
  \<^verbatim>\<open>http.Get\<close> uses the default client, which has no timeout, and \<^verbatim>\<open>io.Copy\<close> reads until the
  body ends: either call may never return. Which calls never return is an input: a list of
  pairs of a task and one of its two calls.
\<close>

datatype call = GetCall | CopyCall

fun is_call :: "call \<Rightarrow> event \<Rightarrow> bool" where
  "is_call GetCall (HttpGet u) = True"
| "is_call CopyCall IoCopy = True"
| "is_call c e = False"

text \<open>
  Goroutine \<open>j\<close> is inside a call that never returns: the last action it performed is such a
  call. It performs no further action; the answers of the world that \<open>fetch\<close> would read
  after the call are never read.
\<close>

definition in_call :: "(nat \<times> call) list \<Rightarrow> nat \<Rightarrow> state \<Rightarrow> bool" where
  "in_call never j s =
     (case rev (task_events j (trace s)) of
        [] \<Rightarrow> False
      | e # es \<Rightarrow> list_ex (\<lambda>p. fst p = j \<and> is_call (snd p) e) never)"

definition task_step_in :: "(nat \<times> call) list \<Rightarrow> nat \<Rightarrow> state \<Rightarrow> state option" where
  "task_step_in never j s = (if in_call never j s then None else task_step j s)"

fun step_in ::
  "(nat \<times> call) list \<Rightarrow> target list \<Rightarrow> Duration \<Rightarrow> actor \<Rightarrow> state \<Rightarrow> state option" where
  "step_in never args elapsed Main s = main_step args elapsed s"
| "step_in never args elapsed (G j) s = task_step_in never j s"

fun run_in ::
  "(nat \<times> call) list \<Rightarrow> target list \<Rightarrow> Duration \<Rightarrow> actor list \<Rightarrow> state \<Rightarrow> state option" where
  "run_in never args elapsed [] s = Some s"
| "run_in never args elapsed (a # sched) s =
     (case step_in never args elapsed a s of
        None \<Rightarrow> None
      | Some s' \<Rightarrow> run_in never args elapsed sched s')"

definition main_in ::
  "(nat \<times> call) list \<Rightarrow> target list \<Rightarrow> Duration \<Rightarrow> actor list \<Rightarrow> state option" where
  "main_in never args elapsed sched = run_in never args elapsed sched init"

text \<open>Nobody can move: \<^verbatim>\<open>main\<close> cannot, and none of the goroutines can.\<close>

definition deadlocked :: "(nat \<times> call) list \<Rightarrow> target list \<Rightarrow> Duration \<Rightarrow> state \<Rightarrow> bool" where
  "deadlocked never args elapsed s =
     (main_step args elapsed s = None
      \<and> list_all (\<lambda>j. task_step_in never j s = None) [0..<length (gs s)])"

text \<open>
  What holds of a task \<open>j\<close> whose call \<open>c\<close> never returns: it has sent nothing, and it is
  inside the call or has the call still before it.
\<close>

definition hung_inv :: "(nat \<times> call) list \<Rightarrow> nat \<Rightarrow> call \<Rightarrow> state \<Rightarrow> bool" where
  "hung_inv never j c s =
     (sends (task_events j (trace s)) = []
      \<and> (j < length (gs s) \<longrightarrow>
           in_call never j s \<or> (\<exists>e \<in> set (remaining (gs s ! j)). is_call c e)))"

subsection \<open>The clock\<close>

text \<open>
  Each step of a schedule now comes with the reading of the monotonic clock at which it
  happens. The state is paired with the variable \<^verbatim>\<open>start\<close>: the step of line 16 stores the
  reading (\<^verbatim>\<open>start := time.Now()\<close>), and the step of line 29 takes the reading less \<^verbatim>\<open>start\<close>
  as its duration (\<^verbatim>\<open>time.Since(start)\<close>); no other step of \<^verbatim>\<open>main\<close> reads the duration.
\<close>

fun clocked_step ::
  "target list \<Rightarrow> actor \<times> Duration \<Rightarrow> state \<times> Duration \<Rightarrow> (state \<times> Duration) option" where
  "clocked_step args (Main, now) (s, start) =
     map_option (\<lambda>s'. (s', if pc s = Line16 then now else start))
       (main_step args (now - start) s)"
| "clocked_step args (G j, now) (s, start) = map_option (\<lambda>s'. (s', start)) (task_step j s)"

fun run_clocked ::
  "target list \<Rightarrow> (actor \<times> Duration) list \<Rightarrow> state \<times> Duration \<Rightarrow> (state \<times> Duration) option" where
  "run_clocked args [] c = Some c"
| "run_clocked args (x # xs) c =
     (case clocked_step args x c of None \<Rightarrow> None | Some c' \<Rightarrow> run_clocked args xs c')"

definition main_clocked :: "target list \<Rightarrow> (actor \<times> Duration) list \<Rightarrow> (state \<times> Duration) option" where
  "main_clocked args xs = run_clocked args xs (init, 0)"

text \<open>The readings do not go back, and each is at most \<open>d\<close> after the one before.\<close>

fun paced :: "Duration \<Rightarrow> Duration list \<Rightarrow> bool" where
  "paced d (t # u # ts) = (t \<le> u \<and> u \<le> t + d \<and> paced d (u # ts))"
| "paced d ts = True"

subsection \<open>A scenario with three targets\<close>

text \<open>
  Target A answers with 100 bytes after 10 ms, target B is refused after 5 ms, target C
  answers with 50 bytes after 20 ms. In the schedule below the three goroutines run
  interleaved with \<^verbatim>\<open>main\<close>, and B reaches its send first, then A, then C.
\<close>

definition example_args :: "target list" where
  "example_args =
     [(''A'', \<lparr>get_err = None, copy_n = 100, copy_err = None, since = 10000000\<rparr>),
      (''B'', \<lparr>get_err = Some ''refused'', copy_n = 0, copy_err = None, since = 5000000\<rparr>),
      (''C'', \<lparr>get_err = None, copy_n = 50, copy_err = None, since = 20000000\<rparr>)]"

definition example_schedule :: "actor list" where
  "example_schedule =
     [Main, Main, G 0, Main, Main, G 1, G 2, G 0, G 1, G 1, Main, Main, G 2, Main,
      G 0, G 0, G 0, G 0, G 2, G 2, Main, Main, G 2, G 2, Main, Main, Main, Main]"

text \<open>The state in which this run ends.\<close>

definition example_final :: state where
  "example_final =
     \<lparr>pc = Returned, gs = [Running [], Running [], Running []], sendq = [],
       trace =
         [MainNow, Go 0, Task 0 Now, Go 1, Go 2, Task 1 Now, Task 2 Now,
          Task 0 (HttpGet ''A''), Task 1 (HttpGet ''B''),
          Task 1 (Send ''refused''), Recv 1 ''refused'',
          Task 2 (HttpGet ''C''), Print ''refused'', Task 0 IoCopy,
          Task 0 BodyClose, Task 0 Since, Task 0 (Send ''0.01s     100 A''),
          Task 2 IoCopy, Task 2 BodyClose, Recv 0 ''0.01s     100 A'',
          Print ''0.01s     100 A'', Task 2 Since,
          Task 2 (Send ''0.02s      50 C''), Recv 2 ''0.02s      50 C'',
          Print ''0.02s      50 C'', MainSince, Summary (''0.02s elapsed'' @ [CHR 0x0A])]\<rparr>"

subsection \<open>A scenario with a call that never returns\<close>

text \<open>
  Target A answers with 100 bytes after 10 ms; the call of \<^verbatim>\<open>http.Get\<close> for target B never
  returns (what the world would have answered is never read). In the schedule below both
  goroutines go as far as they can and \<^verbatim>\<open>main\<close> receives and prints the result of A.
\<close>

definition hang_args :: "target list" where
  "hang_args =
     [(''A'', \<lparr>get_err = None, copy_n = 100, copy_err = None, since = 10000000\<rparr>),
      (''B'', \<lparr>get_err = None, copy_n = 0, copy_err = None, since = 0\<rparr>)]"

definition hang_schedule :: "actor list" where
  "hang_schedule =
     [Main, Main, Main, Main, G 1, G 0, G 1, G 0, G 0, G 0, G 0, G 0, Main, Main]"

definition hang_final :: state where
  "hang_final =
     \<lparr>pc = Line25 1,
       gs = [Running [],
             Running [IoCopy, BodyClose, Since, Send ''0.00s       0 B'']],
       sendq = [],
       trace =
         [MainNow, Go 0, Go 1, Task 1 Now, Task 0 Now, Task 1 (HttpGet ''B''),
          Task 0 (HttpGet ''A''), Task 0 IoCopy, Task 0 BodyClose,
          Task 0 Since, Task 0 (Send ''0.01s     100 A''),
          Recv 0 ''0.01s     100 A'', Print ''0.01s     100 A'']\<rparr>"

subsection \<open>Facts about the formatting\<close>



lemma Sprint_err: "Sprint [Err e] = e"
  by simp

lemma Sprint_reading: "Sprint [Str f, Str url, Err e] = f @ url @ e"
  by simp

subsection \<open>The three paths of the fetch task\<close>

text \<open>
  The task leaves by line 39, by line 48 or by the end of the function, according to the
  two errors.
\<close>

lemma fetch_get_fails:
  "get_err w = Some e \<Longrightarrow> fetch url w = [Now, HttpGet url, Send e]"
  by (simp add: fetch_def)

lemma fetch_copy_fails:
  "get_err w = None \<Longrightarrow> copy_err w = Some e \<Longrightarrow>
   fetch url w = [Now, HttpGet url, IoCopy, BodyClose, Send (''while reading %s: %v'' @ url @ e)]"
  by (simp add: fetch_def)

lemma fetch_succeeds:
  "get_err w = None \<Longrightarrow> copy_err w = None \<Longrightarrow>
   fetch url w = [Now, HttpGet url, IoCopy, BodyClose, Since,
                  Send (Sprintf_result (Seconds (since w)) (copy_n w) url)]"
  by (simp add: fetch_def)

lemma fetch_paths:
  obtains (get_fails) e where "get_err w = Some e"
  | (copy_fails) e where "get_err w = None" "copy_err w = Some e"
  | (succeeds) "get_err w = None" "copy_err w = None"
  by (cases "get_err w"; cases "copy_err w") auto

lemma sends_fetch_one: "length (sends (fetch url w)) = 1"
  by (cases w rule: fetch_paths)
     (simp_all add: fetch_get_fails fetch_copy_fails fetch_succeeds)

lemma length_fetch_le: "length (fetch url w) \<le> 6"
  by (cases w rule: fetch_paths)
     (simp_all add: fetch_get_fails fetch_copy_fails fetch_succeeds)

lemma sends_append [simp]: "sends (xs @ ys) = sends xs @ sends ys"
  by (induction xs rule: sends.induct) simp_all

subsection \<open>The history is read action by action\<close>

lemma task_events_append [simp]:
  "task_events j (xs @ ys) = task_events j xs @ task_events j ys"
  by (induction j xs rule: task_events.induct) simp_all

lemma arrivals_append [simp]: "arrivals (xs @ ys) = arrivals xs @ arrivals ys"
  by (induction xs rule: arrivals.induct) simp_all

lemma received_append [simp]: "received (xs @ ys) = received xs @ received ys"
  by (induction xs rule: received.induct) simp_all

lemma received_from_append [simp]:
  "received_from j (xs @ ys) = received_from j xs @ received_from j ys"
  by (simp add: received_from_def)

lemma printed_append [simp]: "printed (xs @ ys) = printed xs @ printed ys"
  by (induction xs rule: printed.induct) simp_all

lemma stdout_append [simp]: "stdout (xs @ ys) = stdout xs @ stdout ys"
  by (induction xs rule: stdout.induct) simp_all

lemma clockless_append [simp]: "clockless (xs @ ys) = (clockless xs \<and> clockless ys)"
  by (auto simp: clockless_def)

lemma received_from_simps [simp]:
  "received_from j [] = []"
  "received_from j [Recv i v] = (if i = j then [v] else [])"
  "received_from j [Task i e] = []"
  "received_from j [Print v] = []"
  "received_from j [Go i] = []"
  "received_from j [MainNow] = []"
  "received_from j [MainSince, Summary x] = []"
  by (simp_all add: received_from_def)

subsection \<open>The transitions\<close>

text \<open>
  Every step is one of eight transitions: seven of \<^verbatim>\<open>main\<close> and one of a goroutine.
\<close>

lemma task_move_cases [consumes 1, case_names arrive internal]:
  assumes "task_move g = Some (e, g')"
  obtains v es where "g = Running (Send v # es)" "e = Send v" "g' = Blocked v es"
  | es where "g = Running (e # es)" "g' = Running es" "sends [e] = []"
  using assms by (cases g rule: task_move.cases) auto

lemma step_cases [consumes 1, case_names Now Go Exit1 Recv Exit2 Print Summary Task]:
  assumes "step args elapsed a s = Some s'"
  obtains
    "a = Main" "pc s = Line16" "s' = s\<lparr>pc := Line20 0, trace := trace s @ [MainNow]\<rparr>"
  | i where "a = Main" "pc s = Line20 i" "i < length args"
      "s' = s\<lparr>pc := Line20 (i + 1),
              gs := gs s @ [Running (fetch (fst (args ! i)) (snd (args ! i)))],
              trace := trace s @ [Go i]\<rparr>"
  | i where "a = Main" "pc s = Line20 i" "length args \<le> i" "s' = s\<lparr>pc := Line25 0\<rparr>"
  | k j q v es where "a = Main" "pc s = Line25 k" "k < length args" "sendq s = j # q"
      "j < length (gs s)" "gs s ! j = Blocked v es"
      "s' = s\<lparr>pc := Line26 k v, gs := (gs s)[j := Running es], sendq := q,
              trace := trace s @ [Recv j v]\<rparr>"
  | k where "a = Main" "pc s = Line25 k" "length args \<le> k" "s' = s\<lparr>pc := Line29\<rparr>"
  | k v where "a = Main" "pc s = Line26 k v"
      "s' = s\<lparr>pc := Line25 (k + 1), trace := trace s @ [Print v]\<rparr>"
  | "a = Main" "pc s = Line29"
      "s' = s\<lparr>pc := Returned,
              trace := trace s @ [MainSince, Summary (Sprintf_elapsed (Seconds elapsed))]\<rparr>"
  | j e g where "a = G j" "pc s \<noteq> Returned" "j < length (gs s)"
      "task_move (gs s ! j) = Some (e, g)"
      "s' = s\<lparr>gs := (gs s)[j := g],
              sendq := (case g of Blocked v es \<Rightarrow> sendq s @ [j] | Running es \<Rightarrow> sendq s),
              trace := trace s @ [Task j e]\<rparr>"
proof (cases a)
  case Main
  with assms have m: "main_step args elapsed s = Some s'" by simp
  show ?thesis
  proof (cases "pc s")
    case Line16
    with m Main that(1) show ?thesis by (simp add: main_step_def)
  next
    case (Line20 i)
    with m Main that(2,3) [of i] show ?thesis
      by (cases "i < length args") (simp_all add: main_step_def)
  next
    case (Line25 k)
    show ?thesis
    proof (cases "k < length args")
      case False
      with m Main Line25 that(5) [of k] show ?thesis by (simp add: main_step_def)
    next
      case True
      with m Line25 obtain j q where q: "sendq s = j # q"
        by (cases "sendq s") (simp_all add: main_step_def)
      with m Line25 True have j: "j < length (gs s)"
        by (cases "j < length (gs s)") (simp_all add: main_step_def)
      with m Line25 True q obtain v es where b: "gs s ! j = Blocked v es"
        by (cases "gs s ! j") (simp_all add: main_step_def)
      with m Main Line25 True q j that(4) [of k j q v es] show ?thesis
        by (simp add: main_step_def)
    qed
  next
    case (Line26 k v)
    with m Main that(6) [of k v] show ?thesis by (simp add: main_step_def)
  next
    case Line29
    with m Main that(7) show ?thesis by (simp add: main_step_def)
  next
    case Returned
    with m show ?thesis by (simp add: main_step_def)
  qed
next
  case (G j)
  with assms have t: "task_step j s = Some s'" by simp
  then have r: "pc s \<noteq> Returned" and j: "j < length (gs s)"
    by (auto simp: task_step_def split: if_splits)
  with t obtain e g where mv: "task_move (gs s ! j) = Some (e, g)"
    by (cases "task_move (gs s ! j)") (auto simp: task_step_def)
  with t r j G that(8) [of j e g] show ?thesis
    by (simp add: task_step_def)
qed

lemma run_append:
  "run args elapsed (xs @ ys) s =
     (case run args elapsed xs s of None \<Rightarrow> None | Some s' \<Rightarrow> run args elapsed ys s')"
  by (induction xs arbitrary: s) (simp_all split: option.splits)

lemma run_snoc:
  "run args elapsed (xs @ [a]) s = Some s' \<longleftrightarrow>
     (\<exists>s0. run args elapsed xs s = Some s0 \<and> step args elapsed a s0 = Some s')"
  by (simp add: run_append split: option.splits)

lemma run_induct [consumes 1, case_names init step]:
  assumes "run args elapsed sched init = Some s"
    and "P init"
    and "\<And>sched' a s0 s1. run args elapsed sched' init = Some s0 \<Longrightarrow> P s0 \<Longrightarrow>
           step args elapsed a s0 = Some s1 \<Longrightarrow> P s1"
  shows "P s"
  using assms(1)
proof (induction sched arbitrary: s rule: rev_induct)
  case Nil
  with assms(2) show ?case by simp
next
  case (snoc a sched)
  then obtain s0 where "run args elapsed sched init = Some s0" "step args elapsed a s0 = Some s"
    by (auto simp: run_snoc)
  with snoc.IH assms(3) show ?case by blast
qed

subsection \<open>Invariants of every run\<close>

lemma inv_started:
  assumes "run args elapsed sched init = Some s"
  shows "length (gs s) = started (length args) (pc s) \<and> in_range (length args) (pc s)"
  using assms
proof (induction rule: run_induct)
  case init
  show ?case by (simp add: init_def)
next
  case (step sched' a s0 s1)
  from step.hyps(2) step.IH show ?case
    by (cases rule: step_cases) auto
qed

lemma inv_taken:
  assumes "run args elapsed sched init = Some s"
  shows "length (received (trace s)) = taken (length args) (pc s)"
  using assms
proof (induction rule: run_induct)
  case init
  show ?case by (simp add: init_def)
next
  case (step sched' a s0 s1)
  from inv_started [OF step.hyps(1)] have "in_range (length args) (pc s0)" ..
  with step.hyps(2) step.IH show ?case
    by (cases rule: step_cases) auto
qed

lemma inv_printed:
  assumes "run args elapsed sched init = Some s"
  shows "printed (trace s) @ held (pc s) = map snd (received (trace s))"
  using assms
proof (induction rule: run_induct)
  case init
  show ?case by (simp add: init_def)
next
  case (step sched' a s0 s1)
  from step.hyps(2) step.IH show ?case
    by (cases rule: step_cases) auto
qed



lemma inv_sendq:
  assumes "run args elapsed sched init = Some s"
  shows "distinct (sendq s)
         \<and> (\<forall>j. j \<in> set (sendq s) \<longleftrightarrow> j < length (gs s) \<and> in_flight (gs s ! j) \<noteq> [])"
  using assms
proof (induction rule: run_induct)
  case init
  show ?case by (simp add: init_def)
next
  case (step sched' a s0 s1)
  from step.IH have d: "distinct (sendq s0)"
    and q: "\<And>i. i \<in> set (sendq s0) \<longleftrightarrow> i < length (gs s0) \<and> in_flight (gs s0 ! i) \<noteq> []"
    by simp_all
  from step.hyps(2) show ?case
  proof (cases rule: step_cases)
    case (Task j e g)
    from Task(4) show ?thesis
    proof (cases rule: task_move_cases)
      case (arrive v es)
      with q [of j] have nj: "j \<notin> set (sendq s0)" by simp
      have "i \<in> set (sendq s1) \<longleftrightarrow> i < length (gs s1) \<and> in_flight (gs s1 ! i) \<noteq> []" for i
        using Task(3,5) arrive q [of i] by (cases "i = j") simp_all
      moreover from d nj Task(5) arrive have "distinct (sendq s1)" by simp
      ultimately show ?thesis by simp
    next
      case (internal es)
      have "i \<in> set (sendq s1) \<longleftrightarrow> i < length (gs s1) \<and> in_flight (gs s1 ! i) \<noteq> []" for i
        using Task(3,5) internal q [of i] by (cases "i = j") simp_all
      moreover from d Task(5) internal have "distinct (sendq s1)" by simp
      ultimately show ?thesis by simp
    qed
  next
    case (Recv k j r v es)
    from d Recv(4) have nj: "j \<notin> set r" and dr: "distinct r" by simp_all
    have "i \<in> set (sendq s1) \<longleftrightarrow> i < length (gs s1) \<and> in_flight (gs s1 ! i) \<noteq> []" for i
      using Recv(4,5,6,7) nj q [of i] by (cases "i = j") simp_all
    moreover from dr Recv(7) have "distinct (sendq s1)" by simp
    ultimately show ?thesis by simp
  next
    case (Go i)
    have "l \<in> set (sendq s1) \<longleftrightarrow> l < length (gs s1) \<and> in_flight (gs s1 ! l) \<noteq> []" for l
      using Go(4) q [of l] by (cases "l < length (gs s0)") (simp_all add: nth_append)
    moreover from d Go(4) have "distinct (sendq s1)" by simp
    ultimately show ?thesis by simp
  qed (use d q in simp_all)
qed


lemma inv_tasks:
  assumes "run args elapsed sched init = Some s"
  shows "if j < length (gs s)
         then task_events j (trace s) @ remaining (gs s ! j) = fetch (fst (args ! j)) (snd (args ! j))
              \<and> received_from j (trace s) @ in_flight (gs s ! j) = sends (task_events j (trace s))
         else task_events j (trace s) = [] \<and> received_from j (trace s) = []"
  using assms
proof (induction arbitrary: j rule: run_induct)
  case init
  show ?case by (simp add: init_def)
next
  case (step sched' a s0 s1)
  from inv_started [OF step.hyps(1)]
  have st: "length (gs s0) = started (length args) (pc s0)" ..
  from step.hyps(2) show ?case
  proof (cases rule: step_cases)
    case (Task i e g)
    from Task(4) show ?thesis
    proof (cases rule: task_move_cases)
      case (arrive v es)
      with Task step.IH [of j] step.IH [of i] show ?thesis
        by (auto simp: nth_list_update)
    next
      case (internal es)
      with Task step.IH [of j] step.IH [of i] show ?thesis
        by (auto simp: nth_list_update)
    qed
  next
    case (Recv k i q v es)
    with step.IH [of j] step.IH [of i] show ?thesis
      by (auto simp: nth_list_update)
  next
    case (Go i)
    with st step.IH [of j] show ?thesis
      by (auto simp: nth_append less_Suc_eq)
  qed (use step.IH [of j] in auto)
qed

subsection \<open>Every step uses up one of the steps that are left\<close>

lemma sum_list_map_update:
  "j < length xs \<Longrightarrow> f (xs ! j) = f y + d \<Longrightarrow>
   sum_list (map f xs) = sum_list (map f (xs[j := y])) + (d::nat)"
proof (induction xs arbitrary: j)
  case Nil
  then show ?case by simp
next
  case (Cons x xs)
  then show ?case by (cases j) auto
qed

lemma step_steps_left:
  assumes "run args elapsed sched init = Some s" and "step args elapsed a s = Some s'"
  shows "steps_left args s = Suc (steps_left args s')"
proof -
  from inv_started [OF assms(1)]
  have st: "length (gs s) = started (length args) (pc s)"
    and rg: "in_range (length args) (pc s)" by simp_all
  from assms(2) show ?thesis
  proof (cases rule: step_cases)
    case (Go i)
    with st have "drop (length (gs s)) args = args ! i # drop (Suc (length (gs s))) args"
      by (simp add: Cons_nth_drop_Suc)
    with Go st show ?thesis by (simp add: steps_left_def)
  next
    case (Recv k j q v es)
    with sum_list_map_update [of j "gs s" "\<lambda>g. length (remaining g)" "Running es" 0]
    show ?thesis by (simp add: steps_left_def)
  next
    case (Task j e g)
    from Task(4) have "length (remaining (gs s ! j)) = length (remaining g) + 1"
      by (cases rule: task_move_cases) simp_all
    with Task sum_list_map_update [of j "gs s" "\<lambda>g. length (remaining g)" g 1]
    show ?thesis by (simp add: steps_left_def)
  qed (use st rg in \<open>auto simp: steps_left_def\<close>)
qed

lemma run_steps_left:
  assumes "run args elapsed sched init = Some s"
  shows "length sched + steps_left args s = steps_left args init"
  using assms
proof (induction sched arbitrary: s rule: rev_induct)
  case Nil
  then show ?case by simp
next
  case (snoc a sched)
  then obtain s0 where r: "run args elapsed sched init = Some s0"
    and "step args elapsed a s0 = Some s"
    by (auto simp: run_snoc)
  with step_steps_left [OF this] snoc.IH [OF r] show ?case by simp
qed

lemma steps_left_init:
  "steps_left args init = 3 * length args + 4 + sum_list (map (\<lambda>t. length (fetch (fst t) (snd t))) args)"
  by (simp add: steps_left_def init_def)

subsection \<open>The send is the last action of the task\<close>

lemma fetch_ends_with_send: "\<exists>pre m. fetch url w = pre @ [Send m] \<and> sends pre = []"
proof (cases w rule: fetch_paths)
  case (get_fails e)
  then have "fetch url w = [Now, HttpGet url] @ [Send e]"
    by (simp add: fetch_get_fails)
  then show ?thesis by (intro exI conjI) (assumption, simp)
next
  case (copy_fails e)
  then have "fetch url w = [Now, HttpGet url, IoCopy, BodyClose]
      @ [Send (''while reading %s: %v'' @ url @ e)]"
    by (simp add: fetch_copy_fails)
  then show ?thesis by (intro exI conjI) (assumption, simp)
next
  case succeeds
  then have "fetch url w = [Now, HttpGet url, IoCopy, BodyClose, Since]
      @ [Send (Sprintf_result (Seconds (since w)) (copy_n w) url)]"
    by (simp add: fetch_succeeds)
  then show ?thesis by (intro exI conjI) (assumption, simp)
qed

lemma fetch_split_after_send:
  assumes "fetch url w = es @ rest" and "sends es \<noteq> []"
  shows "rest = []"
proof (rule ccontr)
  assume "rest \<noteq> []"
  then obtain r x where rest: "rest = r @ [x]"
    by (cases rest rule: rev_cases) auto
  from fetch_ends_with_send obtain pre m
    where f: "fetch url w = pre @ [Send m]" and pre: "sends pre = []" by blast
  from assms(1) rest f have "es @ r = pre" by simp
  then have "sends es @ sends r = sends pre" by (simp flip: sends_append)
  with pre assms(2) show False by simp
qed

subsection \<open>Each task is received from at most once\<close>

lemma length_filter_fst:
  "length (filter (\<lambda>p. fst p = j) ps) = count_list (map fst ps) j"
  by (induction ps) auto

lemma length_received_from:
  "length (received_from j tr) = count_list (map fst (received tr)) j"
  by (simp add: received_from_def length_filter_fst)

lemma received_from_sender:
  "received_from j tr \<noteq> [] \<Longrightarrow> j \<in> set (map fst (received tr))"
  by (metis length_received_from count_list_0_iff length_0_conv)

text \<open>A task sends at most once, and what \<^verbatim>\<open>main\<close> received from it is at most that.\<close>

lemma task_sends_le:
  assumes "run args elapsed sched init = Some s"
  shows "length (received_from j (trace s)) \<le> length (sends (task_events j (trace s)))"
    and "length (sends (task_events j (trace s))) \<le> 1"
proof -
  note t = inv_tasks [OF assms, of j]
  show "length (received_from j (trace s)) \<le> length (sends (task_events j (trace s)))"
  proof (cases "j < length (gs s)")
    case True
    with t have "received_from j (trace s) @ in_flight (gs s ! j) = sends (task_events j (trace s))"
      by simp
    then have "length (received_from j (trace s)) + length (in_flight (gs s ! j))
        = length (sends (task_events j (trace s)))"
      by (metis length_append)
    then show ?thesis by simp
  next
    case False
    with t show ?thesis by simp
  qed
  show "length (sends (task_events j (trace s))) \<le> 1"
  proof (cases "j < length (gs s)")
    case True
    with t have "sends (task_events j (trace s)) @ sends (remaining (gs s ! j))
        = sends (fetch (fst (args ! j)) (snd (args ! j)))"
      by (simp flip: sends_append)
    then have "length (sends (task_events j (trace s))) + length (sends (remaining (gs s ! j))) = 1"
      by (metis length_append sends_fetch_one)
    then show ?thesis by simp
  next
    case False
    with t show ?thesis by simp
  qed
qed

lemma senders_distinct:
  assumes "run args elapsed sched init = Some s"
  shows "distinct (map fst (received (trace s)))"
    and "set (map fst (received (trace s))) \<subseteq> {..<length (gs s)}"
proof -
  have "count_list (map fst (received (trace s))) j \<le> 1" for j
    using task_sends_le [OF assms, of j] by (simp add: length_received_from)
  then have "count_list (map fst (received (trace s))) j
      = (if j \<in> set (map fst (received (trace s))) then 1 else 0)" for j
    by (metis count_list_0_iff le_antisym less_one not_less)
  then show "distinct (map fst (received (trace s)))"
    unfolding distinct_count_atmost_1 count_mset by blast
  show "set (map fst (received (trace s))) \<subseteq> {..<length (gs s)}"
  proof
    fix j assume "j \<in> set (map fst (received (trace s)))"
    then have "received_from j (trace s) \<noteq> []"
      by (metis length_received_from count_list_0_iff length_0_conv)
    with inv_tasks [OF assms, of j] show "j \<in> {..<length (gs s)}"
      by (cases "j < length (gs s)") simp_all
  qed
qed

text \<open>
  When as many values have been received as goroutines were started, every goroutine has
  run to its end, its one value was received once, and nothing else was received.
\<close>

lemma all_received:
  assumes "run args elapsed sched init = Some s"
    and "length (received (trace s)) = length (gs s)"
  shows "set (map fst (received (trace s))) = {..<length (gs s)}"
    and "j < length (gs s) \<Longrightarrow> task_events j (trace s) = fetch (fst (args ! j)) (snd (args ! j))"
    and "j < length (gs s) \<Longrightarrow> received_from j (trace s) = sends (fetch (fst (args ! j)) (snd (args ! j)))"
    and "j < length (gs s) \<Longrightarrow> gs s ! j = Running []"
proof -
  from senders_distinct(1) [OF assms(1)] assms(2)
  have "card (set (map fst (received (trace s)))) = card {..<length (gs s)}"
    by (metis distinct_card length_map card_lessThan)
  with senders_distinct(2) [OF assms(1)]
  show all: "set (map fst (received (trace s))) = {..<length (gs s)}"
    by (metis card_subset_eq finite_lessThan)
  assume j: "j < length (gs s)"
  with all have "j \<in> set (map fst (received (trace s)))" by simp
  then have r: "received_from j (trace s) \<noteq> []"
    by (metis length_received_from count_list_0_iff length_0_conv)
  with task_sends_le(1) [OF assms(1), of j] have se: "sends (task_events j (trace s)) \<noteq> []"
    by auto
  from inv_tasks [OF assms(1), of j] j
  have te: "fetch (fst (args ! j)) (snd (args ! j)) = task_events j (trace s) @ remaining (gs s ! j)"
    and rf: "received_from j (trace s) @ in_flight (gs s ! j) = sends (task_events j (trace s))"
    by simp_all
  from fetch_split_after_send [OF te se] have rem: "remaining (gs s ! j) = []" .
  with te show ev: "task_events j (trace s) = fetch (fst (args ! j)) (snd (args ! j))" by simp
  from rf have "length (received_from j (trace s)) + length (in_flight (gs s ! j))
      = length (sends (task_events j (trace s)))"
    by (metis length_append)
  moreover from r have "0 < length (received_from j (trace s))" by simp
  ultimately have "length (in_flight (gs s ! j)) = 0"
    using task_sends_le(2) [OF assms(1), of j] by linarith
  then have fl: "in_flight (gs s ! j) = []" by simp
  with rf ev show "received_from j (trace s) = sends (fetch (fst (args ! j)) (snd (args ! j)))"
    by simp
  from rem fl show "gs s ! j = Running []"
    by (cases "gs s ! j") simp_all
qed

subsection \<open>Progress and termination\<close>

text \<open>Before \<^verbatim>\<open>main\<close> has returned, somebody can move: the program has no deadlock.\<close>

lemma can_step:
  assumes "run args elapsed sched init = Some s" and "pc s \<noteq> Returned"
  shows "\<exists>a s'. step args elapsed a s = Some s'"
proof (cases "main_step args elapsed s")
  case (Some s')
  then have "step args elapsed Main s = Some s'" by simp
  then show ?thesis by blast
next
  case None
  with assms(2) obtain k where pc: "pc s = Line25 k" and k: "k < length args"
    by (cases "pc s") (auto simp: main_step_def split: if_splits)
  from inv_started [OF assms(1)] pc have n: "length (gs s) = length args" by simp
  from inv_taken [OF assms(1)] pc have cnt: "length (received (trace s)) = k" by simp
  have empty: "sendq s = []"
  proof (cases "sendq s")
    case (Cons j q)
    with inv_sendq [OF assms(1)] have "j < length (gs s)" "in_flight (gs s ! j) \<noteq> []"
      by auto
    with None pc k Cons show ?thesis
      by (cases "gs s ! j") (simp_all add: main_step_def)
  qed simp
  have "\<exists>j<length (gs s). task_move (gs s ! j) \<noteq> None"
  proof (rule ccontr)
    assume "\<not> ?thesis"
    then have stuck: "\<And>j. j < length (gs s) \<Longrightarrow> task_move (gs s ! j) = None" by blast
    have "j \<in> set (map fst (received (trace s)))" if j: "j < length (gs s)" for j
    proof -
      from inv_sendq [OF assms(1)] empty j have "in_flight (gs s ! j) = []" by auto
      with stuck [OF j] have g: "gs s ! j = Running []"
        by (cases "gs s ! j" rule: task_move.cases) simp_all
      with inv_tasks [OF assms(1), of j] j
      have "received_from j (trace s) = sends (fetch (fst (args ! j)) (snd (args ! j)))"
        by simp
      with sends_fetch_one [of "fst (args ! j)" "snd (args ! j)"]
      have "received_from j (trace s) \<noteq> []" by auto
      then show ?thesis by (rule received_from_sender)
    qed
    then have "{..<length (gs s)} \<subseteq> set (map fst (received (trace s)))" by blast
    then have "card {..<length (gs s)} \<le> card (set (map fst (received (trace s))))"
      by (metis card_mono List.finite_set)
    also have "\<dots> \<le> length (map fst (received (trace s)))" by (rule card_length)
    finally show False using n cnt k by simp
  qed
  then obtain j e g where "j < length (gs s)" "task_move (gs s ! j) = Some (e, g)" by auto
  with assms(2) have "step args elapsed (G j) s \<noteq> None"
    by (simp add: task_step_def)
  then show ?thesis by blast
qed

text \<open>Every run can be continued until \<^verbatim>\<open>main\<close> returns.\<close>

lemma reaches_end:
  assumes "run args elapsed sched init = Some s"
  shows "\<exists>sched' s'. run args elapsed sched' s = Some s' \<and> pc s' = Returned"
  using assms
proof (induction "steps_left args s" arbitrary: sched s)
  case 0
  show ?case
  proof (cases "pc s = Returned")
    case True
    then have "run args elapsed [] s = Some s \<and> pc s = Returned" by simp
    then show ?thesis by blast
  next
    case False
    from can_step [OF "0.prems" False] obtain a s' where "step args elapsed a s = Some s'"
      by blast
    from step_steps_left [OF "0.prems" this] "0.hyps" show ?thesis by simp
  qed
next
  case (Suc n)
  show ?case
  proof (cases "pc s = Returned")
    case True
    then have "run args elapsed [] s = Some s \<and> pc s = Returned" by simp
    then show ?thesis by blast
  next
    case False
    from can_step [OF Suc.prems False] obtain a s1 where st: "step args elapsed a s = Some s1"
      by blast
    from step_steps_left [OF Suc.prems st] Suc.hyps(2) have "n = steps_left args s1" by simp
    moreover from Suc.prems st have "run args elapsed (sched @ [a]) init = Some s1"
      by (auto simp: run_snoc)
    ultimately obtain sched' s' where "run args elapsed sched' s1 = Some s'" "pc s' = Returned"
      using Suc.hyps(1) by blast
    with st have "run args elapsed (a # sched') s = Some s' \<and> pc s' = Returned" by simp
    then show ?thesis by blast
  qed
qed

lemma sum_length_fetch_le:
  "sum_list (map (\<lambda>t. length (fetch (fst t) (snd t))) args) \<le> 6 * length args"
proof (induction args)
  case Nil
  show ?case by simp
next
  case (Cons t args)
  with length_fetch_le [of "fst t" "snd t"] show ?case by simp
qed

lemma length_sched_le:
  assumes "run args elapsed sched init = Some s"
  shows "length sched \<le> 9 * length args + 4"
  using run_steps_left [OF assms] sum_length_fetch_le [of args]
  by (simp add: steps_left_init)

subsection \<open>The shape of the formatted fields\<close>

lemma round_even_nonneg: "0 \<le> x \<Longrightarrow> 0 \<le> round_even x"
  by (simp add: round_even_def Let_def)



subsection \<open>The state when \<^verbatim>\<open>main\<close> has returned\<close>

lemma received_from_printed:
  assumes "received_from j tr = [m]"
  shows "m \<in> set (map snd (received tr))"
proof -
  from assms have "m \<in> set (map snd (filter (\<lambda>p. fst p = j) (received tr)))"
    by (simp add: received_from_def)
  then show ?thesis by auto
qed

lemma at_return:
  assumes "run args elapsed sched init = Some s" and "pc s = Returned"
  shows "length (gs s) = length args" and "length (received (trace s)) = length args"
    and "printed (trace s) = map snd (received (trace s))"
  using inv_started [OF assms(1)] inv_taken [OF assms(1)] inv_printed [OF assms(1)] assms(2)
  by simp_all

subsection \<open>The scenarios, run step by step\<close>

lemma example_run: "main example_args 21000000 example_schedule = Some example_final"
  by code_simp

subsection \<open>Rounding to a \<^verbatim>\<open>float64\<close> is close\<close>

lemma pow2_powi: "pow2 e = 2 powi e"
  by (simp add: pow2_def power_int_def power_one_over inverse_eq_divide)

lemma pow2_pos: "0 < pow2 e"
  by (simp add: pow2_powi)

lemma bits_bounds:
  "0 < n \<Longrightarrow> 1 \<le> bits n \<and> 2 ^ nat (bits n - 1) \<le> n \<and> n < 2 ^ nat (bits n)"
proof (induction n rule: bits.induct)
  case (1 n)
  show ?case
  proof (cases "n = 1")
    case True
    then have "bits n = 1" by (simp add: bits.simps)
    with True show ?thesis by simp
  next
    case False
    with "1.prems" have h: "0 < n div 2" by simp
    with "1.prems" "1.IH" have ih: "1 \<le> bits (n div 2)"
      "2 ^ nat (bits (n div 2) - 1) \<le> n div 2" "n div 2 < 2 ^ nat (bits (n div 2))"
      by simp_all
    from "1.prems" have b: "bits n = 1 + bits (n div 2)" by (subst bits.simps) simp
    from ih(1) have n1: "nat (bits n - 1) = Suc (nat (bits (n div 2) - 1))"
      and n2: "nat (bits n) = Suc (nat (bits (n div 2)))"
      unfolding b by simp_all
    from ih(2) have "2 * 2 ^ nat (bits (n div 2) - 1) \<le> n" by simp
    moreover from ih(3) have "n < 2 * 2 ^ nat (bits (n div 2))" by simp
    ultimately show ?thesis using ih(1) b n1 n2 by simp
  qed
qed

lemma ilog2_le:
  assumes "0 < x"
  shows "pow2 (ilog2 x) \<le> x"
proof -
  obtain p q where pq: "quotient_of x = (p, q)" by (cases "quotient_of x")
  then have q: "0 < q" by (rule quotient_of_denom_pos)
  from pq have x: "x = of_int p / of_int q" by (rule quotient_of_div)
  with assms q have p: "0 < p" by (simp add: zero_less_divide_iff)
  define e where "e = bits p - bits q"
  show ?thesis
  proof (cases "pow2 e \<le> x")
    case True
    with pq show ?thesis by (simp add: ilog2_def e_def)
  next
    case False
    with pq have il: "ilog2 x = e - 1" by (simp add: ilog2_def e_def)
    from bits_bounds [OF p] have bp: "1 \<le> bits p" "2 ^ nat (bits p - 1) \<le> p" by simp_all
    from bits_bounds [OF q] have bq: "1 \<le> bits q" "q < 2 ^ nat (bits q)" by simp_all
    have "e - 1 = (bits p - 1) - bits q" by (simp add: e_def)
    then have "pow2 (e - 1) = 2 powi ((bits p - 1) - bits q)" by (simp only: pow2_powi)
    also have "\<dots> = 2 powi (bits p - 1) / 2 powi (bits q)"
      by (rule power_int_diff) simp
    also have "\<dots> = 2 ^ nat (bits p - 1) / 2 ^ nat (bits q)"
      using bp(1) bq(1) by (simp add: power_int_def)
    also have "\<dots> \<le> of_int p / of_int q"
    proof (rule frac_le)
      from bp(2) have "(of_int (2 ^ nat (bits p - 1)) :: rat) \<le> of_int p"
        by (simp only: of_int_le_iff)
      then show "(2::rat) ^ nat (bits p - 1) \<le> of_int p" by simp
      from bq(2) have "(of_int q :: rat) \<le> of_int (2 ^ nat (bits q))"
        by (simp only: of_int_le_iff)
      then show "(of_int q :: rat) \<le> 2 ^ nat (bits q)" by simp
      from p show "(0::rat) \<le> of_int p" by simp
      from q show "(0::rat) < of_int q" by simp
    qed
    finally show ?thesis using il x by simp
  qed
qed

lemma round_even_le: "of_int (round_even z) \<le> z + 1 / 2"
proof -
  have f: "of_int \<lfloor>z\<rfloor> \<le> z" by (rule of_int_floor_le)
  have "round_even z = \<lfloor>z\<rfloor>
      \<or> round_even z = \<lfloor>z\<rfloor> + 1 \<and> 1 / 2 \<le> z - of_int \<lfloor>z\<rfloor>"
    by (auto simp: round_even_def Let_def)
  then show ?thesis
  proof
    assume "round_even z = \<lfloor>z\<rfloor>"
    then have "(of_int (round_even z) :: rat) = of_int \<lfloor>z\<rfloor>" by simp
    with f show ?thesis by linarith
  next
    assume "round_even z = \<lfloor>z\<rfloor> + 1 \<and> 1 / 2 \<le> z - of_int \<lfloor>z\<rfloor>"
    then have "(of_int (round_even z) :: rat) = of_int \<lfloor>z\<rfloor> + 1"
      and "1 / 2 \<le> z - of_int \<lfloor>z\<rfloor>" by simp_all
    then show ?thesis by linarith
  qed
qed

text \<open>Rounding to a \<^verbatim>\<open>float64\<close> raises a positive number by less than one part in \<open>2^53\<close>.\<close>

lemma f64_bounds:
  assumes "0 \<le> x"
  shows "0 \<le> f64 x" and "f64 x \<le> x * (1 + 1 / 2 ^ 53)"
proof -
  show "0 \<le> f64 x"
  proof (cases "x = 0")
    case False
    with assms have "0 < x" by simp
    then have "0 \<le> round_even (\<bar>x\<bar> / pow2 (ilog2 \<bar>x\<bar> - 52))"
      by (intro round_even_nonneg) (simp add: pow2_pos less_imp_le)
    with \<open>0 < x\<close> pow2_pos [of "ilog2 \<bar>x\<bar> - 52"] show ?thesis
      by (simp add: f64_def Let_def)
  qed (simp add: f64_def)
  show "f64 x \<le> x * (1 + 1 / 2 ^ 53)"
  proof (cases "x = 0")
    case False
    with assms have x: "0 < x" by simp
    define e where "e = ilog2 x - 52"
    have pe: "0 < pow2 e" by (rule pow2_pos)
    have "pow2 e = 2 powi ilog2 x / 2 powi 52"
      unfolding pow2_powi e_def by (rule power_int_diff) simp
    then have "pow2 e = pow2 (ilog2 x) / 2 ^ 52"
      by (simp add: pow2_powi)
    with ilog2_le [OF x] have le: "pow2 e \<le> x / 2 ^ 52"
      by (simp add: divide_right_mono)
    from x have "f64 x = of_int (round_even (x / pow2 e)) * pow2 e"
      by (simp add: f64_def Let_def e_def)
    also have "\<dots> \<le> (x / pow2 e + 1 / 2) * pow2 e"
      using round_even_le [of "x / pow2 e"] pe by (simp add: mult_right_mono)
    also have "\<dots> = x + pow2 e / 2"
      using pe by (simp add: field_simps)
    also have "\<dots> \<le> x + (x / 2 ^ 52) / 2"
      using le by simp
    also have "\<dots> = x * (1 + 1 / 2 ^ 53)"
      by (simp add: field_simps)
    finally show ?thesis .
  qed (simp add: f64_def)
qed

text \<open>A duration below five milliseconds is printed as \<open>0.00\<close>.\<close>

lemma Seconds_small:
  assumes "0 \<le> n" and "n < 5000000"
  shows "0 \<le> Seconds n" and "Seconds n * 100 < 1 / 2"
proof -
  define k where "k = 1 + 1 / (2::rat) ^ 53"
  have k: "0 \<le> k" by (simp add: k_def)
  from assms have q: "quo n Second = 0" and r: "rem n Second = n"
    by (simp_all add: quo_def rem_def Second_def sgn_if)
  have z: "f64 0 = 0" by (simp add: f64_def)
  define a where "a = f64 (of_int n)"
  define b where "b = f64 (a / 1000000000)"
  from assms(1) have n0: "(0::rat) \<le> of_int n" by simp
  have a: "0 \<le> a" "a \<le> of_int n * k"
    unfolding a_def k_def by (rule f64_bounds [OF n0])+
  then have a0: "0 \<le> a / 1000000000" by simp
  have b: "0 \<le> b" "b \<le> a / 1000000000 * k"
    unfolding b_def k_def by (rule f64_bounds [OF a0])+
  have S: "Seconds n = f64 b"
    by (simp add: Seconds_def Let_def q r z a_def b_def)
  have s: "0 \<le> f64 b" "f64 b \<le> b * k"
    unfolding k_def by (rule f64_bounds [OF b(1)])+
  from s(1) S show "0 \<le> Seconds n" by simp
  from a(2) have "a / 1000000000 \<le> of_int n * k / 1000000000"
    by (rule divide_right_mono) simp
  then have "a / 1000000000 * k \<le> of_int n * k / 1000000000 * k"
    using k by (rule mult_right_mono)
  with b(2) have "b \<le> of_int n * k / 1000000000 * k" by (rule order_trans)
  then have "b * k \<le> of_int n * k / 1000000000 * k * k"
    using k by (rule mult_right_mono)
  with s(2) have "f64 b \<le> of_int n * k / 1000000000 * k * k" by (rule order_trans)
  also have "\<dots> = of_int n * (k * k * k / 1000000000)" by simp
  also have "\<dots> \<le> 4999999 * (k * k * k / 1000000000)"
  proof (rule mult_right_mono)
    from assms(2) have "n \<le> 4999999" by simp
    then show "(of_int n :: rat) \<le> 4999999" by (metis of_int_le_iff of_int_numeral)
    show "0 \<le> k * k * k / 1000000000" using k by simp
  qed
  finally have u: "f64 b \<le> 4999999 * (k * k * k / 1000000000)" .
  have v: "4999999 * (k * k * k / 1000000000) * 100 < 1 / 2" by (simp add: k_def)
  from u have "f64 b * 100 \<le> 4999999 * (k * k * k / 1000000000) * 100"
    by (rule mult_right_mono) simp
  with v S show "Seconds n * 100 < 1 / 2" by linarith
qed

lemma fmt_2f_small:
  assumes "0 \<le> n" and "n < 5000000"
  shows "fmt_2f (Seconds n) = ''0.00''"
proof -
  from Seconds_small [OF assms] have s: "0 \<le> Seconds n * 100" "Seconds n * 100 < 1 / 2"
    and nn: "\<not> Seconds n < 0"
    by simp_all
  then have "\<lfloor>Seconds n * 100\<rfloor> = 0" by (simp add: floor_eq_iff)
  with s have h: "round_even (Seconds n * 100) = 0"
    by (simp add: round_even_def Let_def)
  from nn have "\<bar>Seconds n\<bar> = Seconds n" by simp
  with h nn show ?thesis
    by (simp add: fmt_2f_def Let_def show_dec.simps digit_char_def)
qed

subsection \<open>Runs in which calls may never return\<close>

lemma step_in_step:
  "step_in never args elapsed a s = Some s' \<Longrightarrow> step args elapsed a s = Some s'"
  by (cases a) (simp_all add: task_step_in_def split: if_splits)

lemma run_in_run:
  "run_in never args elapsed sched s = Some s' \<Longrightarrow> run args elapsed sched s = Some s'"
proof (induction sched arbitrary: s)
  case Nil
  then show ?case by simp
next
  case (Cons a sched)
  then obtain s1 where s1: "step_in never args elapsed a s = Some s1"
    and r: "run_in never args elapsed sched s1 = Some s'"
    by (auto split: option.splits)
  from step_in_step [OF s1] Cons.IH [OF r] show ?case by simp
qed

lemma in_call_Nil [simp]: "in_call [] j s = False"
  by (simp add: in_call_def split: list.splits)

lemma step_in_Nil: "step_in [] args elapsed a s = step args elapsed a s"
  by (cases a) (simp_all add: task_step_in_def)

lemma run_in_Nil: "run_in [] args elapsed sched s = run args elapsed sched s"
  by (induction sched arbitrary: s) (simp_all add: step_in_Nil split: option.splits)

lemma run_in_append:
  "run_in never args elapsed (xs @ ys) s =
     (case run_in never args elapsed xs s of
        None \<Rightarrow> None
      | Some s' \<Rightarrow> run_in never args elapsed ys s')"
  by (induction xs arbitrary: s) (simp_all split: option.splits)

lemma run_in_snoc:
  "run_in never args elapsed (xs @ [a]) s = Some s' \<longleftrightarrow>
     (\<exists>s0. run_in never args elapsed xs s = Some s0 \<and> step_in never args elapsed a s0 = Some s')"
  by (simp add: run_in_append split: option.splits)

lemma run_in_induct [consumes 1, case_names init step]:
  assumes "run_in never args elapsed sched init = Some s"
    and "P init"
    and "\<And>sched' a s0 s1. run_in never args elapsed sched' init = Some s0 \<Longrightarrow> P s0 \<Longrightarrow>
           step_in never args elapsed a s0 = Some s1 \<Longrightarrow> P s1"
  shows "P s"
  using assms(1)
proof (induction sched arbitrary: s rule: rev_induct)
  case Nil
  with assms(2) show ?case by simp
next
  case (snoc a sched)
  then obtain s0 where "run_in never args elapsed sched init = Some s0"
    "step_in never args elapsed a s0 = Some s"
    by (auto simp: run_in_snoc)
  with snoc.IH assms(3) show ?case by blast
qed

lemma deadlocked_no_step:
  assumes "deadlocked never args elapsed s"
  shows "step_in never args elapsed a s = None"
proof (cases a)
  case Main
  with assms show ?thesis by (simp add: deadlocked_def)
next
  case (G j)
  show ?thesis
  proof (cases "j < length (gs s)")
    case True
    with assms G show ?thesis by (simp add: deadlocked_def list_all_iff)
  next
    case False
    with G show ?thesis by (simp add: task_step_in_def task_step_def)
  qed
qed

lemma in_call_snoc:
  "task_events j (trace s) = es @ [e] \<Longrightarrow> (j, c) \<in> set never \<Longrightarrow> is_call c e \<Longrightarrow>
   in_call never j s"
  by (force simp: in_call_def list_ex_iff)

lemma is_call_not_send: "is_call c e \<Longrightarrow> sends [e] = []"
  by (cases c; cases e) simp_all

lemma hung_inv_same:
  assumes "hung_inv never j c s0"
    and "task_events j (trace s1) = task_events j (trace s0)"
    and "j < length (gs s1) \<Longrightarrow> j < length (gs s0)"
    and "j < length (gs s1) \<Longrightarrow> remaining (gs s1 ! j) = remaining (gs s0 ! j)"
  shows "hung_inv never j c s1"
  using assms unfolding hung_inv_def in_call_def by simp

text \<open>
  A task with a call that never returns sends nothing: it gets as far as the call.
\<close>

lemma hung_task_sends_nothing:
  assumes "run_in never args elapsed sched init = Some s"
    and nv: "(j, c) \<in> set never"
    and ahead: "\<exists>e \<in> set (fetch (fst (args ! j)) (snd (args ! j))). is_call c e"
  shows "hung_inv never j c s"
  using assms(1)
proof (induction rule: run_in_induct)
  case init
  show ?case by (simp add: init_def hung_inv_def)
next
  case (step sched' a s0 s1)
  note r0 = run_in_run [OF step.hyps(1)]
  note ih = step.IH
  from inv_started [OF r0] have st: "length (gs s0) = started (length args) (pc s0)" ..
  from step_in_step [OF step.hyps(2)] show ?case
  proof (cases rule: step_cases)
    case (Task i e g)
    show ?thesis
    proof (cases "i = j")
      case False
      with Task show ?thesis by (intro hung_inv_same [OF ih]) simp_all
    next
      case True
      with step.hyps(2) Task(1) have "\<not> in_call never j s0"
        by (auto simp: task_step_in_def split: if_splits)
      with ih Task(3) True obtain e' where e': "e' \<in> set (remaining (gs s0 ! j))" "is_call c e'"
        unfolding hung_inv_def by blast
      from ih have se: "sends (task_events j (trace s0)) = []"
        unfolding hung_inv_def by simp
      from inv_tasks [OF r0, of j] Task(3) True
      have f: "fetch (fst (args ! j)) (snd (args ! j))
          = task_events j (trace s0) @ remaining (gs s0 ! j)"
        by simp
      from Task(4) show ?thesis
      proof (cases rule: task_move_cases)
        case (arrive v es)
        with True f have "fetch (fst (args ! j)) (snd (args ! j))
            = (task_events j (trace s0) @ [Send v]) @ es"
          by simp
        from fetch_split_after_send [OF this] have "es = []" by simp
        with arrive(1) True e' have "e' = Send v" by simp
        with e'(2) is_call_not_send [of c e'] show ?thesis by simp
      next
        case (internal es)
        from Task(5) True have te: "task_events j (trace s1) = task_events j (trace s0) @ [e]"
          by simp
        with se internal(3) have s1: "sends (task_events j (trace s1)) = []" by simp
        from Task(3,5) True internal have g1: "remaining (gs s1 ! j) = es"
          by simp
        show ?thesis
        proof (cases "is_call c e")
          case True
          from in_call_snoc [OF te nv True] s1 show ?thesis
            unfolding hung_inv_def by simp
        next
          case False
          with e' internal(1) \<open>i = j\<close> have "e' \<in> set es" by auto
          with e'(2) g1 s1 show ?thesis
            unfolding hung_inv_def by blast
        qed
      qed
    qed
  next
    case (Go i)
    show ?thesis
    proof (cases "j < length (gs s0)")
      case True
      with Go show ?thesis
        by (intro hung_inv_same [OF ih]) (simp_all add: nth_append)
    next
      case False
      from ih have se: "sends (task_events j (trace s0)) = []"
        unfolding hung_inv_def by simp
      from Go have te: "task_events j (trace s1) = task_events j (trace s0)" by simp
      have "\<exists>e \<in> set (remaining (gs s1 ! j)). is_call c e" if "j < length (gs s1)"
      proof -
        from that False Go st have "j = i" "i = length (gs s0)" by simp_all
        with Go ahead show ?thesis by simp
      qed
      with se te show ?thesis unfolding hung_inv_def by simp
    qed
  next
    case (Recv k i q v es)
    then show ?thesis
      by (intro hung_inv_same [OF ih]) (auto simp: nth_list_update)
  next
    case Now
    then show ?thesis by (intro hung_inv_same [OF ih]) simp_all
  next
    case (Exit1 i)
    then show ?thesis by (intro hung_inv_same [OF ih]) simp_all
  next
    case (Exit2 k)
    then show ?thesis by (intro hung_inv_same [OF ih]) simp_all
  next
    case (Print k v)
    then show ?thesis by (intro hung_inv_same [OF ih]) simp_all
  next
    case Summary
    then show ?thesis by (intro hung_inv_same [OF ih]) simp_all
  qed
qed


text \<open>
  Then \<^verbatim>\<open>main\<close> never returns: it has received fewer values than there are targets, and
  none from that task.
\<close>

lemma hung_task_starves_main:
  assumes "run_in never args elapsed sched init = Some s"
    and "(j, c) \<in> set never" and j: "j < length args"
    and "\<exists>e \<in> set (fetch (fst (args ! j)) (snd (args ! j))). is_call c e"
  shows "pc s \<noteq> Returned" and "received_from j (trace s) = []"
    and "length (received (trace s)) < length args"
proof -
  note r = run_in_run [OF assms(1)]
  from hung_task_sends_nothing [OF assms(1,2,4)]
  have se: "sends (task_events j (trace s)) = []" unfolding hung_inv_def by simp
  with inv_tasks [OF r, of j] show none: "received_from j (trace s) = []"
    by (cases "j < length (gs s)") simp_all
  show "pc s \<noteq> Returned"
  proof
    assume ret: "pc s = Returned"
    note n = at_return(1,2) [OF r ret]
    then have "length (received (trace s)) = length (gs s)" by simp
    from all_received(3) [OF r this, of j] j n(1) none
    have "sends (fetch (fst (args ! j)) (snd (args ! j))) = []" by simp
    with sends_fetch_one [of "fst (args ! j)" "snd (args ! j)"] show False by simp
  qed
  from inv_started [OF r] have "length (gs s) \<le> length args"
    by (cases "pc s") simp_all
  with senders_distinct(2) [OF r]
  have sub: "set (map fst (received (trace s))) \<subseteq> {..<length args}" by auto
  have "j \<notin> set (map fst (received (trace s)))"
  proof
    assume "j \<in> set (map fst (received (trace s)))"
    then have "count_list (map fst (received (trace s))) j \<noteq> 0"
      by (simp only: count_list_0_iff) simp
    with none show False by (simp add: flip: length_received_from)
  qed
  with sub j have "set (map fst (received (trace s))) \<subset> {..<length args}" by blast
  then have "card (set (map fst (received (trace s)))) < card {..<length args}"
    by (rule psubset_card_mono [OF finite_lessThan])
  moreover from senders_distinct(1) [OF r]
  have "card (set (map fst (received (trace s)))) = length (map fst (received (trace s)))"
    by (rule distinct_card)
  ultimately show "length (received (trace s)) < length args" by simp
qed

lemma hang_run: "main_in [(1, GetCall)] hang_args 0 hang_schedule = Some hang_final"
  by code_simp

lemma hang_deadlocked: "deadlocked [(1, GetCall)] hang_args 0 hang_final"
  by code_simp

subsection \<open>The text of the error of \<^verbatim>\<open>http.Get\<close>\<close>


subsection \<open>Runs with a clock\<close>

lemma run_clocked_append:
  "run_clocked args (xs @ ys) c =
     (case run_clocked args xs c of None \<Rightarrow> None | Some c' \<Rightarrow> run_clocked args ys c')"
  by (induction xs arbitrary: c) (simp_all split: option.splits)

lemma run_clocked_snoc:
  "run_clocked args (xs @ [x]) c = Some c' \<longleftrightarrow>
     (\<exists>c0. run_clocked args xs c = Some c0 \<and> clocked_step args x c0 = Some c')"
  by (simp add: run_clocked_append split: option.splits)

text \<open>The duration is read on line 29 only.\<close>

lemma main_step_elapsed:
  "pc s \<noteq> Line29 \<Longrightarrow> main_step args e s = main_step args e' s"
  by (cases "pc s") (simp_all add: main_step_def)

lemma step_from_Returned: "pc s = Returned \<Longrightarrow> step args e a s = None"
  by (cases a) (simp_all add: main_step_def task_step_def)

lemma step_to_Returned:
  "step args e a s = Some s' \<Longrightarrow> pc s' = Returned \<longleftrightarrow> a = Main \<and> pc s = Line29"
  by (cases rule: step_cases) auto

text \<open>
  A run with clock readings is a run of \<^verbatim>\<open>main\<close>; when it has returned, the duration is the
  reading at the step of line 29 less the value of \<^verbatim>\<open>start\<close>.
\<close>

lemma clocked_step_step:
  assumes "clocked_step args (a, now) (s, st) = Some (s', st')"
  shows "step args (now - st) a s = Some s'"
  using assms by (cases a) auto

lemma clocked_run_before_return:
  assumes "run_clocked args xs (s0, st0) = Some (s, st)" and "pc s \<noteq> Returned"
  shows "run args e (map fst xs) s0 = Some s"
  using assms
proof (induction xs arbitrary: s st rule: rev_induct)
  case Nil
  then show ?case by simp
next
  case (snoc x xs)
  obtain a now where x: "x = (a, now)" by (cases x)
  from snoc.prems(1) obtain s1 st1 where r1: "run_clocked args xs (s0, st0) = Some (s1, st1)"
    and c: "clocked_step args x (s1, st1) = Some (s, st)"
    by (auto simp: run_clocked_snoc)
  from c x have stp: "step args (now - st1) a s1 = Some s" by (simp add: clocked_step_step)
  with step_from_Returned [of s1 args "now - st1" a] have nr: "pc s1 \<noteq> Returned" by auto
  from step_to_Returned [OF stp] snoc.prems(2) have "\<not> (a = Main \<and> pc s1 = Line29)" by simp
  with stp main_step_elapsed [of s1 args "now - st1" e] have "step args e a s1 = Some s"
    by (cases a) auto
  with snoc.IH [OF r1 nr] show ?case
    by (simp add: run_append x)
qed

lemma clocked_run_returned:
  assumes "main_clocked args xs = Some (s, st)" and "pc s = Returned"
  shows "\<exists>ys now. xs = ys @ [(Main, now)] \<and> main args (now - st) (map fst xs) = Some s"
proof (cases xs rule: rev_cases)
  case Nil
  with assms show ?thesis by (auto simp: main_clocked_def init_def)
next
  case (snoc ys x)
  obtain a now where x: "x = (a, now)" by (cases x)
  from assms(1) snoc obtain s1 st1 where r1: "run_clocked args ys (init, 0) = Some (s1, st1)"
    and c: "clocked_step args x (s1, st1) = Some (s, st)"
    by (auto simp: main_clocked_def run_clocked_snoc)
  from c x have stp: "step args (now - st1) a s1 = Some s" by (simp add: clocked_step_step)
  with step_from_Returned [of s1 args "now - st1" a] have nr: "pc s1 \<noteq> Returned" by auto
  from step_to_Returned [OF stp] assms(2) have a: "a = Main" "pc s1 = Line29" by simp_all
  with c x have "st = st1" by auto
  with clocked_run_before_return [OF r1 nr, of "now - st"] stp a x snoc show ?thesis
    by (simp add: main_def run_append)
qed

lemma empty_clocked_run:
  assumes "run_clocked [] xs (init, 0) = Some (s, st)"
  shows "gs s = [] \<and> sendq s = []
       \<and> (pc s = Line16 \<and> xs = [] \<and> trace s = []
          \<or> (\<exists>t1. pc s = Line20 0 \<and> xs = [(Main, t1)] \<and> st = t1 \<and> trace s = [MainNow])
          \<or> (\<exists>t1 t2. pc s = Line25 0 \<and> xs = [(Main, t1), (Main, t2)] \<and> st = t1
                \<and> trace s = [MainNow])
          \<or> (\<exists>t1 t2 t3. pc s = Line29 \<and> xs = [(Main, t1), (Main, t2), (Main, t3)] \<and> st = t1
                \<and> trace s = [MainNow])
          \<or> (\<exists>t1 t2 t3 t4. pc s = Returned
                \<and> xs = [(Main, t1), (Main, t2), (Main, t3), (Main, t4)] \<and> st = t1
                \<and> trace s = [MainNow, MainSince, Summary (Sprintf_elapsed (Seconds (t4 - t1)))]))"
  using assms
proof (induction xs arbitrary: s st rule: rev_induct)
  case Nil
  then show ?case by (auto simp: init_def)
next
  case (snoc x xs)
  obtain a now where x: "x = (a, now)" by (cases x)
  from snoc.prems obtain s1 st1 where r1: "run_clocked [] xs (init, 0) = Some (s1, st1)"
    and c: "clocked_step [] x (s1, st1) = Some (s, st)"
    by (auto simp: run_clocked_snoc)
  note ih = snoc.IH [OF r1]
  then have g: "gs s1 = []" by simp
  show ?case
  proof (cases a)
    case (G j)
    with c x g show ?thesis by (simp add: task_step_def)
  next
    case Main
    with c x have m: "main_step [] (now - st1) s1 = Some s"
      and st: "st = (if pc s1 = Line16 then now else st1)"
      by auto
    from ih consider "pc s1 = Line16" | "pc s1 = Line20 0" | "pc s1 = Line25 0"
      | "pc s1 = Line29" | "pc s1 = Returned" by blast
    then show ?thesis
    proof cases
      case 1
      with ih m st x Main show ?thesis by (auto simp: main_step_def)
    next
      case 2
      with ih m st x Main show ?thesis by (auto simp: main_step_def)
    next
      case 3
      with ih m st x Main show ?thesis by (auto simp: main_step_def)
    next
      case 4
      with ih m st x Main show ?thesis by (auto simp: main_step_def)
    next
      case 5
      with m show ?thesis by (simp add: main_step_def)
    qed
  qed
qed

lemma empty_clocked_example:
  "main_clocked [] [(Main, t), (Main, t + d), (Main, t + 2 * d), (Main, t + 3 * d)]
     = Some (\<lparr>pc = Returned, gs = [], sendq = [],
               trace = [MainNow, MainSince, Summary (Sprintf_elapsed (Seconds (3 * d)))]\<rparr>, t)"
  by (simp add: main_clocked_def init_def main_step_def)

section \<open>The claims\<close>

text \<open>
  C1, at a target whose \<^verbatim>\<open>http.Get\<close> never returns. Of the targets A and B, A answers and the
  call of \<^verbatim>\<open>http.Get\<close> for B never returns. After the run below \<^verbatim>\<open>main\<close> has received and
  printed one result of two and waits in its second receive; neither \<^verbatim>\<open>main\<close> nor a
  goroutine can move, so the second result is never collected and the summary is never
  written.
\<close>

theorem hanging_target_counterexample:
  "main_in [(1, GetCall)] hang_args 0 hang_schedule = Some hang_final
   \<and> deadlocked [(1, GetCall)] hang_args 0 hang_final
   \<and> pc hang_final = Line25 1
   \<and> length hang_args = 2
   \<and> received (trace hang_final) = [(0, ''0.01s     100 A'')]
   \<and> stdout (trace hang_final) = [''0.01s     100 A'' @ [CHR 0x0A]]"
  using hang_run hang_deadlocked
  by (simp add: hang_final_def hang_args_def Println_def)

text \<open>
  C1, provided every call of \<^verbatim>\<open>http.Get\<close> and \<^verbatim>\<open>io.Copy\<close> returns. Then, for every
  sequence of targets and every schedule, the dispatcher collects exactly one result per
  target. From every state a run has reached, the run can be continued until \<^verbatim>\<open>main\<close>
  returns, and no run is longer than \<open>9 * N + 4\<close> steps, so \<^verbatim>\<open>main\<close> does return. When it
  has returned, it has received exactly \<open>N\<close> values, the senders of these values are the
  tasks \<open>0, \<dots>, N - 1\<close>, each once (nothing dropped, nothing received twice), every task
  has sent exactly one value, and what was received from a task is what it sent.
\<close>

theorem collects_n_results_when_calls_return:
  assumes "main_in never args elapsed sched = Some s" and "never = []"
  shows "(\<exists>sched' s'. run_in never args elapsed sched' s = Some s' \<and> pc s' = Returned)
       \<and> length sched \<le> 9 * length args + 4
       \<and> (pc s = Returned \<longrightarrow>
             length (received (trace s)) = length args
           \<and> mset (map fst (received (trace s))) = mset [0..<length args]
           \<and> (\<forall>j<length args.
                  length (sends (task_events j (trace s))) = 1
                \<and> received_from j (trace s) = sends (task_events j (trace s))))"
proof -
  from assms have r: "run args elapsed sched init = Some s"
    by (simp add: main_in_def run_in_Nil)
  have "length (received (trace s)) = length args
      \<and> mset (map fst (received (trace s))) = mset [0..<length args]
      \<and> (\<forall>j<length args.
             length (sends (task_events j (trace s))) = 1
           \<and> received_from j (trace s) = sends (task_events j (trace s)))"
    if ret: "pc s = Returned"
  proof -
    note n = at_return(1,2) [OF r ret]
    then have full: "length (received (trace s)) = length (gs s)" by simp
    from all_received(1) [OF r full] n
    have "set (map fst (received (trace s))) = set [0..<length args]"
      by (simp add: lessThan_atLeast0)
    with senders_distinct(1) [OF r]
    have "mset (map fst (received (trace s))) = mset [0..<length args]"
      by (metis set_eq_iff_mset_eq_distinct distinct_upt)
    moreover have "length (sends (task_events j (trace s))) = 1
        \<and> received_from j (trace s) = sends (task_events j (trace s))"
      if "j < length args" for j
      using that n all_received(2,3) [OF r full, of j] sends_fetch_one by simp
    ultimately show ?thesis using n by blast
  qed
  moreover from reaches_end [OF r] assms(2)
  have "\<exists>sched' s'. run_in never args elapsed sched' s = Some s' \<and> pc s' = Returned"
    by (simp add: run_in_Nil)
  ultimately show ?thesis using length_sched_le [OF r] by blast
qed

theorem collects_n_results_when_calls_return_witness:
  "main_in [] example_args 21000000 example_schedule = Some example_final
   \<and> pc example_final = Returned
   \<and> length example_schedule \<le> 9 * length example_args + 4
   \<and> length (received (trace example_final)) = length example_args
   \<and> mset (map fst (received (trace example_final))) = mset [0..<length example_args]
   \<and> received_from 1 (trace example_final) = sends (task_events 1 (trace example_final))
   \<and> sends (task_events 1 (trace example_final)) = [''refused'']"
proof -
  from example_run have r: "main_in [] example_args 21000000 example_schedule = Some example_final"
    by (simp add: main_in_def main_def run_in_Nil)
  from collects_n_results_when_calls_return [OF r refl] r show ?thesis
    by (simp add: example_final_def example_args_def example_schedule_def)
qed





text \<open>
  C4. A transport failure in task \<open>j\<close> is not fatal. The task turns the error \<open>e\<close> into the
  one value it sends, which ends with \<open>e\<close>. Whatever state the run has reached, it can be
  continued until \<^verbatim>\<open>main\<close> returns. When \<^verbatim>\<open>main\<close> has returned, every task, the failed one
  and the others, has performed all the actions of its \<^verbatim>\<open>fetch\<close> and its value has been
  received; the value of the failed task has been received and printed.
\<close>

theorem transport_failure_not_fatal:
  assumes "main args elapsed sched = Some s" and "j < length args"
    and "get_err (snd (args ! j)) = Some e
         \<or> get_err (snd (args ! j)) = None \<and> copy_err (snd (args ! j)) = Some e"
  shows "(\<exists>pre. sends (fetch (fst (args ! j)) (snd (args ! j))) = [pre @ e])
       \<and> (\<exists>sched' s'. run args elapsed sched' s = Some s' \<and> pc s' = Returned)
       \<and> (pc s = Returned \<longrightarrow>
             (\<forall>i<length args.
                  task_events i (trace s) = fetch (fst (args ! i)) (snd (args ! i))
                \<and> received_from i (trace s) = sends (fetch (fst (args ! i)) (snd (args ! i))))
           \<and> (\<exists>pre. received_from j (trace s) = [pre @ e]
                    \<and> pre @ e \<in> set (printed (trace s))))"
proof -
  from assms(1) have r: "run args elapsed sched init = Some s" by (simp add: main_def)
  from assms(3) obtain pre where
    pre: "sends (fetch (fst (args ! j)) (snd (args ! j))) = [pre @ e]"
  proof
    assume "get_err (snd (args ! j)) = Some e"
    then have "sends (fetch (fst (args ! j)) (snd (args ! j))) = [[] @ e]"
      by (simp add: fetch_get_fails)
    then show ?thesis by (rule that)
  next
    assume "get_err (snd (args ! j)) = None \<and> copy_err (snd (args ! j)) = Some e"
    then have "sends (fetch (fst (args ! j)) (snd (args ! j)))
        = [(''while reading %s: %v'' @ fst (args ! j)) @ e]"
      by (simp add: fetch_copy_fails)
    then show ?thesis by (rule that)
  qed
  have "(\<forall>i<length args.
            task_events i (trace s) = fetch (fst (args ! i)) (snd (args ! i))
          \<and> received_from i (trace s) = sends (fetch (fst (args ! i)) (snd (args ! i))))
      \<and> (\<exists>pre. received_from j (trace s) = [pre @ e] \<and> pre @ e \<in> set (printed (trace s)))"
    if ret: "pc s = Returned"
  proof -
    note n = at_return [OF r ret]
    then have full: "length (received (trace s)) = length (gs s)" by simp
    have every: "task_events i (trace s) = fetch (fst (args ! i)) (snd (args ! i))
        \<and> received_from i (trace s) = sends (fetch (fst (args ! i)) (snd (args ! i)))"
      if "i < length args" for i
      using that n(1) all_received(2,3) [OF r full, of i] by simp
    from every [OF assms(2)] pre have rj: "received_from j (trace s) = [pre @ e]" by simp
    from received_from_printed [OF rj] n(3) have "pre @ e \<in> set (printed (trace s))" by simp
    with rj every show ?thesis by blast
  qed
  with pre reaches_end [OF r] show ?thesis by blast
qed

theorem transport_failure_not_fatal_witness:
  "main example_args 21000000 example_schedule = Some example_final
   \<and> (1::nat) < length example_args
   \<and> get_err (snd (example_args ! 1)) = Some ''refused''
   \<and> pc example_final = Returned
   \<and> task_events 0 (trace example_final) = fetch (fst (example_args ! 0)) (snd (example_args ! 0))
   \<and> task_events 2 (trace example_final) = fetch (fst (example_args ! 2)) (snd (example_args ! 2))
   \<and> received_from 1 (trace example_final) = [''refused'']
   \<and> ''refused'' \<in> set (printed (trace example_final))"
proof -
  have j: "(1::nat) < length example_args" by (simp add: example_args_def)
  have e: "get_err (snd (example_args ! 1)) = Some ''refused''
      \<or> get_err (snd (example_args ! 1)) = None \<and> copy_err (snd (example_args ! 1)) = Some ''refused''"
    by (simp add: example_args_def)
  have ret: "pc example_final = Returned" by (simp add: example_final_def)
  have "(0::nat) < length example_args" "(2::nat) < length example_args"
    by (simp_all add: example_args_def)
  with transport_failure_not_fatal [OF example_run j e] ret
  have "task_events 0 (trace example_final) = fetch (fst (example_args ! 0)) (snd (example_args ! 0))"
    and "task_events 2 (trace example_final) = fetch (fst (example_args ! 2)) (snd (example_args ! 2))"
    by blast+
  moreover have "received_from 1 (trace example_final) = [''refused'']"
    "''refused'' \<in> set (printed (trace example_final))"
    by (simp_all add: example_final_def received_from_def)
  moreover have "get_err (snd (example_args ! 1)) = Some ''refused''"
    by (simp add: example_args_def)
  ultimately show ?thesis using example_run j ret by simp
qed





text \<open>
  C7. With no targets the dispatcher starts no goroutine and receives nothing, whatever the
  schedule and the clock. When \<^verbatim>\<open>main\<close> has returned, the run was four steps of \<^verbatim>\<open>main\<close>,
  and the whole history is the clock reading of line 16, the call of \<^verbatim>\<open>time.Since\<close> of line
  29 and the summary, which is the only output. The duration reported is the clock reading
  at the fourth step less the reading at the first: it is the time of three steps of
  \<^verbatim>\<open>main\<close> itself, with no wait and no fetch in it. So when a step takes at most \<open>d\<close> the
  duration is at most \<open>3 * d\<close>, and when the duration is below five milliseconds the
  summary reads \<open>0.00s elapsed\<close>. The run of four steps exists for every clock.
\<close>

theorem empty_dispatch:
  assumes "main_clocked [] xs = Some (s, start)"
  shows "gs s = [] \<and> received (trace s) = [] \<and> arrivals (trace s) = []
       \<and> (\<forall>j. task_events j (trace s) = [])
       \<and> (pc s = Returned \<longrightarrow>
            (\<exists>t1 t2 t3 t4. xs = [(Main, t1), (Main, t2), (Main, t3), (Main, t4)]
               \<and> trace s = [MainNow, MainSince, Summary (Sprintf_elapsed (Seconds (t4 - t1)))]
               \<and> stdout (trace s) = [fmt_2f (Seconds (t4 - t1)) @ ''s elapsed'' @ [CHR 0x0A]]
               \<and> (paced d (map snd xs) \<longrightarrow> 0 \<le> t4 - t1 \<and> t4 - t1 \<le> 3 * d)
               \<and> (0 \<le> t4 - t1 \<and> t4 - t1 < 5000000 \<longrightarrow>
                    stdout (trace s) = [''0.00s elapsed'' @ [CHR 0x0A]])))
       \<and> (\<exists>c. main_clocked [] [(Main, t), (Main, t + d), (Main, t + 2 * d), (Main, t + 3 * d)]
                 = Some c \<and> pc (fst c) = Returned)"
proof -
  from assms have r: "run_clocked [] xs (init, 0) = Some (s, start)"
    by (simp add: main_clocked_def)
  note e = empty_clocked_run [OF r]
  from e have a: "gs s = []" "received (trace s) = []" "arrivals (trace s) = []"
    "\<forall>j. task_events j (trace s) = []"
    by auto
  have b: "\<exists>t1 t2 t3 t4. xs = [(Main, t1), (Main, t2), (Main, t3), (Main, t4)]
      \<and> trace s = [MainNow, MainSince, Summary (Sprintf_elapsed (Seconds (t4 - t1)))]
      \<and> stdout (trace s) = [fmt_2f (Seconds (t4 - t1)) @ ''s elapsed'' @ [CHR 0x0A]]
      \<and> (paced d (map snd xs) \<longrightarrow> 0 \<le> t4 - t1 \<and> t4 - t1 \<le> 3 * d)
      \<and> (0 \<le> t4 - t1 \<and> t4 - t1 < 5000000 \<longrightarrow>
           stdout (trace s) = [''0.00s elapsed'' @ [CHR 0x0A]])"
    if "pc s = Returned"
  proof -
    from e that obtain t1 t2 t3 t4 where xs: "xs = [(Main, t1), (Main, t2), (Main, t3), (Main, t4)]"
      and tr: "trace s = [MainNow, MainSince, Summary (Sprintf_elapsed (Seconds (t4 - t1)))]"
      by auto
    from tr have out: "stdout (trace s) = [fmt_2f (Seconds (t4 - t1)) @ ''s elapsed'' @ [CHR 0x0A]]"
      by (simp add: Sprintf_elapsed_def)
    moreover from xs have "paced d (map snd xs) \<longrightarrow> 0 \<le> t4 - t1 \<and> t4 - t1 \<le> 3 * d"
      by auto
    moreover have "stdout (trace s) = [''0.00s elapsed'' @ [CHR 0x0A]]"
      if "0 \<le> t4 - t1 \<and> t4 - t1 < 5000000"
      using that out fmt_2f_small [of "t4 - t1"] by simp
    ultimately show ?thesis using xs tr by blast
  qed
  from empty_clocked_example [of t d]
  have "\<exists>c. main_clocked [] [(Main, t), (Main, t + d), (Main, t + 2 * d), (Main, t + 3 * d)]
      = Some c \<and> pc (fst c) = Returned"
    by simp
  with a b show ?thesis by blast
qed

theorem empty_dispatch_witness:
  "main_clocked [] [(Main, 1000), (Main, 1100), (Main, 1200), (Main, 1300)] =
     Some (\<lparr>pc = Returned, gs = [], sendq = [],
             trace = [MainNow, MainSince, Summary (''0.00s elapsed'' @ [CHR 0x0A])]\<rparr>, 1000)
   \<and> paced 100 (map snd [(Main, 1000), (Main, 1100), (Main, 1200), (Main, 1300::int)])
   \<and> (0::int) \<le> 1300 - 1000 \<and> (1300::int) - 1000 \<le> 3 * 100 \<and> (1300::int) - 1000 < 5000000
   \<and> stdout [MainNow, MainSince, Summary (''0.00s elapsed'' @ [CHR 0x0A])]
       = [''0.00s elapsed'' @ [CHR 0x0A]]
   \<and> received [MainNow, MainSince, Summary (''0.00s elapsed'' @ [CHR 0x0A])] = []"
proof -
  have r: "main_clocked [] [(Main, 1000), (Main, 1100), (Main, 1200), (Main, 1300)] =
     Some (\<lparr>pc = Returned, gs = [], sendq = [],
             trace = [MainNow, MainSince, Summary (''0.00s elapsed'' @ [CHR 0x0A])]\<rparr>, 1000)"
    by code_simp
  from empty_dispatch [OF r, of 100 0] r show ?thesis by simp
qed

text \<open>
  C8, at a malformed target. For the malformed target \<open>::\<close> the task calls \<^verbatim>\<open>http.Get\<close>
  like for any other target, and sends the error that \<^verbatim>\<open>http.Get\<close> returns.
\<close>

theorem malformed_target_counterexample:
  "fetch ''::'' \<lparr>get_err = Some ''missing protocol scheme'', copy_n = 0, copy_err = None, since = 0\<rparr>
     = [Now, HttpGet ''::'', Send ''missing protocol scheme'']"
  by (simp add: fetch_def)

text \<open>
  C8, as it holds for the program. The task does not examine its target: for every target
  its first two actions are the clock reading and the call of \<^verbatim>\<open>http.Get\<close> with that
  target, and it calls \<^verbatim>\<open>http.Get\<close> once only. When \<^verbatim>\<open>http.Get\<close> returns an error, the
  task sends the error text at once and ends: it reads no body and closes none.
\<close>

theorem transport_called_for_every_target:
  "(\<exists>rest. fetch url w = [Now, HttpGet url] @ rest \<and> (\<forall>u. HttpGet u \<notin> set rest))
   \<and> (get_err w = Some e \<longrightarrow> fetch url w = [Now, HttpGet url, Send e])"
proof -
  have "\<exists>rest. fetch url w = [Now, HttpGet url] @ rest \<and> (\<forall>u. HttpGet u \<notin> set rest)"
    by (cases w rule: fetch_paths)
       (simp_all add: fetch_get_fails fetch_copy_fails fetch_succeeds)
  then show ?thesis by (simp add: fetch_get_fails)
qed

theorem transport_called_for_every_target_witness:
  "get_err \<lparr>get_err = Some ''missing protocol scheme'', copy_n = 0, copy_err = None, since = 0\<rparr>
     = Some ''missing protocol scheme''
   \<and> fetch ''::'' \<lparr>get_err = Some ''missing protocol scheme'', copy_n = 0, copy_err = None, since = 0\<rparr>
     = [Now, HttpGet ''::'', Send ''missing protocol scheme'']"
  using transport_called_for_every_target
      [of "''::''" "\<lparr>get_err = Some ''missing protocol scheme'', copy_n = 0, copy_err = None, since = 0\<rparr>"
          "''missing protocol scheme''"]
  by simp



text \<open>
  C10. When the read of the body fails after \<^verbatim>\<open>http.Get\<close> succeeded, the task has closed the
  body (line 44) before it sends, and the value it sends is the text
  \<open>while reading %s: %v\<close> as it stands, followed at once by the target and by the error
  text: \<^verbatim>\<open>fmt.Sprint\<close> substitutes no verb, and puts no space after an operand that is a
  string.
\<close>

theorem read_failure_message:
  "get_err w = None \<Longrightarrow> copy_err w = Some e \<Longrightarrow>
   fetch url w = [Now, HttpGet url, IoCopy, BodyClose, Send (''while reading %s: %v'' @ url @ e)]
   \<and> Sprint [Str ''while reading %s: %v'', Str url, Err e] = ''while reading %s: %v'' @ url @ e"
  by (simp add: fetch_copy_fails)

theorem read_failure_message_witness:
  "get_err \<lparr>get_err = None, copy_n = 512, copy_err = Some ''unexpected EOF'', since = 0\<rparr> = None
   \<and> copy_err \<lparr>get_err = None, copy_n = 512, copy_err = Some ''unexpected EOF'', since = 0\<rparr>
       = Some ''unexpected EOF''
   \<and> fetch ''http://gopl.io'' \<lparr>get_err = None, copy_n = 512, copy_err = Some ''unexpected EOF'', since = 0\<rparr>
       = [Now, HttpGet ''http://gopl.io'', IoCopy, BodyClose,
          Send ''while reading %s: %vhttp://gopl.iounexpected EOF'']"
  using read_failure_message
    [of "\<lparr>get_err = None, copy_n = 512, copy_err = Some ''unexpected EOF'', since = 0\<rparr>"
        "''unexpected EOF''" "''http://gopl.io''"]
  by simp

end
